theory Spec2Isabelle
  imports Main "HOL-Library.Word"
begin

section \<open>RecursiveReadWriteMutex: the per-thread wrapper\<close>

text \<open>
  \<^verbatim>\<open>thread_local std::size_t LocalThreadReadLockCounter = 0;\<close>
  \<^verbatim>\<open>thread_local std::size_t LocalThreadWriteLockCounter = 0;\<close>
  The two depths of one thread. \<open>std::size_t\<close> is taken as the 64-bit unsigned integer
  of an LP64 platform: \<open>++\<close> and \<open>--\<close> wrap modulo \<open>2 ^ 64\<close>.
\<close>

record thread_local =
  LocalThreadReadLockCounter :: "64 word"
  LocalThreadWriteLockCounter :: "64 word"

definition clean :: thread_local where
  "clean = \<lparr>LocalThreadReadLockCounter = 0, LocalThreadWriteLockCounter = 0\<rparr>"

text \<open>
  The calls a wrapper method makes on its member \<open>Rwmx\<close>, in the order it makes them.
\<close>

datatype rwmx_call = Rwmx_ReadLock | Rwmx_ReadUnlock | Rwmx_WriteLock | Rwmx_WriteUnlock

text \<open>
  Each method of \<open>RecursiveReadWriteMutex\<close> takes the calling thread's counters and
  returns them updated, with the calls it made on \<open>Rwmx\<close>. None of the four methods
  has a \<open>throw\<close>, an \<open>assert\<close> or an \<open>abort\<close>: each one returns.
\<close>

definition Recursive_ReadLock :: "thread_local \<Rightarrow> thread_local \<times> rwmx_call list" where
  "Recursive_ReadLock s =
     (if LocalThreadWriteLockCounter s = 0
      then (s\<lparr>LocalThreadReadLockCounter := LocalThreadReadLockCounter s + 1\<rparr>,
            if LocalThreadReadLockCounter s = 0 then [Rwmx_ReadLock] else [])
      else (s, []))"

definition Recursive_ReadUnlock :: "thread_local \<Rightarrow> thread_local \<times> rwmx_call list" where
  "Recursive_ReadUnlock s =
     (if LocalThreadWriteLockCounter s = 0
      then (s\<lparr>LocalThreadReadLockCounter := LocalThreadReadLockCounter s - 1\<rparr>,
            if LocalThreadReadLockCounter s = 1 then [Rwmx_ReadUnlock] else [])
      else (s, []))"

definition Recursive_WriteLock :: "thread_local \<Rightarrow> thread_local \<times> rwmx_call list" where
  "Recursive_WriteLock s =
     (s\<lparr>LocalThreadWriteLockCounter := LocalThreadWriteLockCounter s + 1\<rparr>,
      if LocalThreadWriteLockCounter s = 0
      then (if 0 < LocalThreadReadLockCounter s then [Rwmx_ReadUnlock] else [])
             @ [Rwmx_WriteLock]
      else [])"

definition Recursive_WriteUnlock :: "thread_local \<Rightarrow> thread_local \<times> rwmx_call list" where
  "Recursive_WriteUnlock s =
     (s\<lparr>LocalThreadWriteLockCounter := LocalThreadWriteLockCounter s - 1\<rparr>,
      if LocalThreadWriteLockCounter s = 1
      then Rwmx_WriteUnlock #
             (if 0 < LocalThreadReadLockCounter s then [Rwmx_ReadLock] else [])
      else [])"

text \<open>A thread's program over one wrapper: a sequence of the four operations.\<close>

datatype operation = ReadLock | ReadUnlock | WriteLock | WriteUnlock

fun call_operation :: "operation \<Rightarrow> thread_local \<Rightarrow> thread_local \<times> rwmx_call list" where
  "call_operation ReadLock s = Recursive_ReadLock s"
| "call_operation ReadUnlock s = Recursive_ReadUnlock s"
| "call_operation WriteLock s = Recursive_WriteLock s"
| "call_operation WriteUnlock s = Recursive_WriteUnlock s"

text \<open>
  Running a sequence of methods: the final counters, and for each method in turn the
  calls it made on \<open>Rwmx\<close>.
\<close>

fun run_operations :: "operation list \<Rightarrow> thread_local \<Rightarrow> thread_local \<times> rwmx_call list list" where
  "run_operations [] s = (s, [])"
| "run_operations (m # ms) s =
     (case call_operation m s of (s', cs) \<Rightarrow>
        (case run_operations ms s' of (s'', css) \<Rightarrow> (s'', cs # css)))"

definition final_counters :: "operation list \<Rightarrow> thread_local \<Rightarrow> thread_local" where
  "final_counters ms s = fst (run_operations ms s)"

definition rwmx_trace :: "operation list \<Rightarrow> thread_local \<Rightarrow> rwmx_call list" where
  "rwmx_trace ms s = concat (snd (run_operations ms s))"

text \<open>
  What the calling thread holds on \<open>Rwmx\<close> between calls. \<open>ReadWriteMutex\<close> is not
  reentrant: a thread takes shared or exclusive access only when it holds nothing
  (\<open>WriteLock\<close> would otherwise wait for the thread's own read or on its own
  \<open>WriteMutex\<close>), and gives back only what it holds. A call outside this discipline
  is \<open>None\<close>.
\<close>

datatype access = NoAccess | SharedAccess | ExclusiveAccess

fun rwmx_apply :: "rwmx_call \<Rightarrow> access \<Rightarrow> access option" where
  "rwmx_apply Rwmx_ReadLock NoAccess = Some SharedAccess"
| "rwmx_apply Rwmx_ReadUnlock SharedAccess = Some NoAccess"
| "rwmx_apply Rwmx_WriteLock NoAccess = Some ExclusiveAccess"
| "rwmx_apply Rwmx_WriteUnlock ExclusiveAccess = Some NoAccess"
| "rwmx_apply _ _ = None"

fun rwmx_apply_all :: "rwmx_call list \<Rightarrow> access \<Rightarrow> access option" where
  "rwmx_apply_all [] a = Some a"
| "rwmx_apply_all (c # cs) a =
     (case rwmx_apply c a of None \<Rightarrow> None | Some a' \<Rightarrow> rwmx_apply_all cs a')"

text \<open>
  The invariant of the wrapper: \<open>Rwmx\<close> is held in shared mode by the thread iff
  its read depth is positive and its write depth is zero, and in exclusive mode iff
  its write depth is positive. The second argument is what the thread holds after its
  calls on \<open>Rwmx\<close>, \<open>None\<close> when one of them broke the discipline above.
\<close>

definition access_invariant :: "thread_local \<Rightarrow> access option \<Rightarrow> bool" where
  "access_invariant s held =
     (case held of
        None \<Rightarrow> False
      | Some a \<Rightarrow>
          (a = SharedAccess) =
            (0 < LocalThreadReadLockCounter s \<and> LocalThreadWriteLockCounter s = 0) \<and>
          (a = ExclusiveAccess) = (0 < LocalThreadWriteLockCounter s))"

definition held_after :: "operation list \<Rightarrow> access option" where
  "held_after ms = rwmx_apply_all (rwmx_trace ms clean) NoAccess"

text \<open>
  Two readings of a balanced sequence of methods. \<open>nested\<close>: the locks and unlocks
  are brackets of two kinds, each unlock closing the most recent lock still open, which
  is of its own kind (the first argument of \<open>nested_from\<close> is the stack of open
  locks, most recent first). \<open>matched\<close>: each unlock only has an earlier lock of its
  own kind that is still open (the arguments of \<open>matched_from\<close> count the open read
  locks and the open write locks), and nothing is open at the end.
\<close>

fun nested_from :: "operation list \<Rightarrow> operation list \<Rightarrow> bool" where
  "nested_from st [] = (st = [])"
| "nested_from st (ReadLock # ms) = nested_from (ReadLock # st) ms"
| "nested_from st (WriteLock # ms) = nested_from (WriteLock # st) ms"
| "nested_from (ReadLock # st) (ReadUnlock # ms) = nested_from st ms"
| "nested_from (WriteLock # st) (WriteUnlock # ms) = nested_from st ms"
| "nested_from _ _ = False"

definition nested :: "operation list \<Rightarrow> bool" where
  "nested ms = nested_from [] ms"

fun matched_from :: "nat \<Rightarrow> nat \<Rightarrow> operation list \<Rightarrow> bool" where
  "matched_from r w [] = (r = 0 \<and> w = 0)"
| "matched_from r w (ReadLock # ms) = matched_from (Suc r) w ms"
| "matched_from r w (WriteLock # ms) = matched_from r (Suc w) ms"
| "matched_from r w (ReadUnlock # ms) = (0 < r \<and> matched_from (r - 1) w ms)"
| "matched_from r w (WriteUnlock # ms) = (0 < w \<and> matched_from r (w - 1) ms)"

definition matched :: "operation list \<Rightarrow> bool" where
  "matched ms = matched_from 0 0 ms"

text \<open>
  The largest number of locks the thread has open at once while it runs the sequence,
  starting with \<open>d\<close> open.
\<close>

fun max_open :: "nat \<Rightarrow> operation list \<Rightarrow> nat" where
  "max_open d [] = d"
| "max_open d (ReadLock # ms) = max d (max_open (Suc d) ms)"
| "max_open d (WriteLock # ms) = max d (max_open (Suc d) ms)"
| "max_open d (ReadUnlock # ms) = max d (max_open (d - 1) ms)"
| "max_open d (WriteUnlock # ms) = max d (max_open (d - 1) ms)"

text \<open>
  Bookkeeping for the proof of the invariant, over the stack of locks the thread has
  open (most recent first): the write locks among them, and the read locks taken
  outside every write section, which are the ones \<open>Recursive_ReadLock\<close> counts.
\<close>

fun open_writes :: "operation list \<Rightarrow> nat" where
  "open_writes [] = 0"
| "open_writes (m # st) = (if m = WriteLock then Suc (open_writes st) else open_writes st)"

fun outer_reads :: "operation list \<Rightarrow> nat" where
  "outer_reads [] = 0"
| "outer_reads (m # st) =
     (if m = ReadLock \<and> open_writes st = 0 then Suc (outer_reads st) else outer_reads st)"

definition tracked :: "operation list \<Rightarrow> thread_local \<Rightarrow> access \<Rightarrow> bool" where
  "tracked st s a =
     (length st < 2 ^ 64 \<and>
      LocalThreadReadLockCounter s = of_nat (outer_reads st) \<and>
      LocalThreadWriteLockCounter s = of_nat (open_writes st) \<and>
      a = (if 0 < open_writes st then ExclusiveAccess
           else if 0 < outer_reads st then SharedAccess else NoAccess))"

section \<open>ReadWriteMutex: threads interleaved at its atomic statements\<close>

text \<open>
  The state of one \<open>ReadWriteMutex\<close> and of the threads using it. The two
  \<open>std::mutex\<close> members are held by at most one thread each (\<open>None\<close>: unlocked);
  \<open>ReadCounter\<close> is a \<open>std::atomic_int\<close>, a 32-bit two's-complement integer whose
  \<open>fetch_add\<close> and \<open>fetch_sub\<close> wrap; \<open>IsCondVarWaiting\<close> is a
  \<open>std::atomic_bool\<close>. All accesses to the atomics use the default, sequentially
  consistent order, so an execution is an interleaving of the threads' atomic
  statements.

  A thread is at a program point: outside the lock holding nothing (\<open>Idle\<close>), between
  the return of \<open>ReadLock\<close> and its call of \<open>ReadUnlock\<close> (\<open>Reading\<close>: it holds
  shared access), between the return of \<open>WriteLock\<close> and its call of \<open>WriteUnlock\<close>
  (\<open>Writing\<close>: it holds exclusive access), or inside one of the four methods, about to
  execute the statement at the source line in the name of the program point. Line 53,
  \<^verbatim>\<open>while (IsCondVarWaiting.load()) Cv.notify_all();\<close>, is two statements, the load
  and the notification. Line 74, \<^verbatim>\<open>if (ReadCounter.load() > 0) Cv.wait(lk);\<close>, is the
  load (\<open>WL74_load\<close>), the call of \<open>wait\<close> (\<open>WL74_wait\<close>), which blocks the thread, and
  the blocked thread (\<open>WL74_blocked\<close>), which continues at line 76 once it is woken.
  The condition variable \<open>Cv\<close> has no state of its own: the threads blocked on it
  are those at \<open>WL74_blocked\<close>. The mutex \<open>mtx\<close> of lines 67 and 68 is local to
  the call and never contended; locking it at line 68, releasing it in \<open>wait\<close> and
  taking it again on wake-up always succeed at once and are not separate steps.
\<close>

type_synonym tid = nat

datatype pc =
    Idle
  | RL39 | RL40 | RL41 | RL42 | RL43
  | Reading
  | RU49 | RU50 | RU52 | RU53_load | RU53_notify | RU55
  | WL70 | WL72 | WL74_load | WL74_wait | WL74_blocked | WL76
  | Writing
  | WU82

record rwm =
  WriteMutex :: "tid option"
  ReadMutex :: "tid option"
  ReadCounter :: "32 word"
  IsCondVarWaiting :: bool
  pc_of :: "tid \<Rightarrow> pc"

text \<open>
  The constructor: \<^verbatim>\<open>ReadCounter.store(0); IsCondVarWaiting.store(false);\<close>, both
  mutexes unlocked, and no thread has called a method yet.
\<close>

definition init :: rwm where
  "init = \<lparr>WriteMutex = None, ReadMutex = None, ReadCounter = 0,
           IsCondVarWaiting = False, pc_of = (\<lambda>t. Idle)\<rparr>"

definition goto :: "tid \<Rightarrow> pc \<Rightarrow> rwm \<Rightarrow> rwm" where
  "goto t p s = s\<lparr>pc_of := (pc_of s)(t := p)\<rparr>"

text \<open>\<open>Cv.notify_all()\<close> unblocks every thread blocked in \<open>Cv.wait\<close>.\<close>

definition notify_all :: "rwm \<Rightarrow> rwm" where
  "notify_all s = s\<lparr>pc_of := (\<lambda>u. if pc_of s u = WL74_blocked then WL76 else pc_of s u)\<rparr>"

text \<open>
  The statement at a program point, executed by thread \<open>t\<close>. \<open>None\<close>: the thread
  cannot take the step now: \<open>lock()\<close> on a mutex that is held, a thread blocked in
  \<open>wait\<close>, or a thread that is not inside a method.
\<close>

fun statement :: "tid \<Rightarrow> pc \<Rightarrow> rwm \<Rightarrow> rwm option" where
  "statement t RL39 s =
     (if WriteMutex s = None then Some (goto t RL40 (s\<lparr>WriteMutex := Some t\<rparr>)) else None)"
| "statement t RL40 s =
     (if ReadMutex s = None then Some (goto t RL41 (s\<lparr>ReadMutex := Some t\<rparr>)) else None)"
| "statement t RL41 s = Some (goto t RL42 (s\<lparr>ReadCounter := ReadCounter s + 1\<rparr>))"
| "statement t RL42 s = Some (goto t RL43 (s\<lparr>ReadMutex := None\<rparr>))"
| "statement t RL43 s = Some (goto t Reading (s\<lparr>WriteMutex := None\<rparr>))"
| "statement t RU49 s =
     (if ReadMutex s = None then Some (goto t RU50 (s\<lparr>ReadMutex := Some t\<rparr>)) else None)"
| "statement t RU50 s = Some (goto t RU52 (s\<lparr>ReadCounter := ReadCounter s - 1\<rparr>))"
| "statement t RU52 s = Some (goto t (if ReadCounter s = 0 then RU53_load else RU55) s)"
| "statement t RU53_load s = Some (goto t (if IsCondVarWaiting s then RU53_notify else RU55) s)"
| "statement t RU53_notify s = Some (goto t RU53_load (notify_all s))"
| "statement t RU55 s = Some (goto t Idle (s\<lparr>ReadMutex := None\<rparr>))"
| "statement t WL70 s =
     (if WriteMutex s = None then Some (goto t WL72 (s\<lparr>WriteMutex := Some t\<rparr>)) else None)"
| "statement t WL72 s = Some (goto t WL74_load (s\<lparr>IsCondVarWaiting := True\<rparr>))"
| "statement t WL74_load s =
     Some (goto t (if 0 < sint (ReadCounter s) then WL74_wait else WL76) s)"
| "statement t WL74_wait s = Some (goto t WL74_blocked s)"
| "statement t WL74_blocked s = None"
| "statement t WL76 s = Some (goto t Writing (s\<lparr>IsCondVarWaiting := False\<rparr>))"
| "statement t WU82 s = Some (goto t Idle (s\<lparr>WriteMutex := None\<rparr>))"
| "statement t Idle s = None"
| "statement t Reading s = None"
| "statement t Writing s = None"

text \<open>
  The events of an execution. A thread calls \<open>ReadLock\<close> or \<open>WriteLock\<close> when it holds
  nothing, \<open>ReadUnlock\<close> when it holds shared access and \<open>WriteUnlock\<close> when it holds
  exclusive access; \<open>Exec t\<close> is thread \<open>t\<close> executing its next statement; and
  \<open>Spurious_wakeup t\<close> is \<open>Cv.wait\<close> returning in thread \<open>t\<close> with no notification,
  which \<open>std::condition_variable::wait\<close> is allowed to do.
\<close>

datatype event =
    Call_ReadLock tid
  | Call_ReadUnlock tid
  | Call_WriteLock tid
  | Call_WriteUnlock tid
  | Exec tid
  | Spurious_wakeup tid

fun fire :: "event \<Rightarrow> rwm \<Rightarrow> rwm option" where
  "fire (Call_ReadLock t) s = (if pc_of s t = Idle then Some (goto t RL39 s) else None)"
| "fire (Call_ReadUnlock t) s = (if pc_of s t = Reading then Some (goto t RU49 s) else None)"
| "fire (Call_WriteLock t) s = (if pc_of s t = Idle then Some (goto t WL70 s) else None)"
| "fire (Call_WriteUnlock t) s = (if pc_of s t = Writing then Some (goto t WU82 s) else None)"
| "fire (Exec t) s = statement t (pc_of s t) s"
| "fire (Spurious_wakeup t) s =
     (if pc_of s t = WL74_blocked then Some (goto t WL76 s) else None)"

text \<open>
  What a thread holds between calls, read off its program point (\<open>None\<close> inside a
  method), and the event that is a call of the wrapper's member \<open>Rwmx\<close> by thread
  \<open>t\<close>: the discipline of \<open>rwmx_apply\<close> is the one of the call events.
\<close>

fun access_at :: "pc \<Rightarrow> access option" where
  "access_at Idle = Some NoAccess"
| "access_at Reading = Some SharedAccess"
| "access_at Writing = Some ExclusiveAccess"
| "access_at _ = None"

fun call_event :: "rwmx_call \<Rightarrow> tid \<Rightarrow> event" where
  "call_event Rwmx_ReadLock t = Call_ReadLock t"
| "call_event Rwmx_ReadUnlock t = Call_ReadUnlock t"
| "call_event Rwmx_WriteLock t = Call_WriteLock t"
| "call_event Rwmx_WriteUnlock t = Call_WriteUnlock t"

text \<open>An execution is a sequence of events, each one possible where it happens.\<close>

fun run :: "event list \<Rightarrow> rwm \<Rightarrow> rwm option" where
  "run [] s = Some s"
| "run (e # es) s = (case fire e s of None \<Rightarrow> None | Some s' \<Rightarrow> run es s')"

fun is_spurious :: "event \<Rightarrow> bool" where
  "is_spurious (Spurious_wakeup t) = True"
| "is_spurious _ = False"

text \<open>The program points at which a thread holds \<open>WriteMutex\<close>, and \<open>ReadMutex\<close>.\<close>

fun holds_WriteMutex :: "pc \<Rightarrow> bool" where
  "holds_WriteMutex RL40 = True"
| "holds_WriteMutex RL41 = True"
| "holds_WriteMutex RL42 = True"
| "holds_WriteMutex RL43 = True"
| "holds_WriteMutex WL72 = True"
| "holds_WriteMutex WL74_load = True"
| "holds_WriteMutex WL74_wait = True"
| "holds_WriteMutex WL74_blocked = True"
| "holds_WriteMutex WL76 = True"
| "holds_WriteMutex Writing = True"
| "holds_WriteMutex WU82 = True"
| "holds_WriteMutex _ = False"

fun holds_ReadMutex :: "pc \<Rightarrow> bool" where
  "holds_ReadMutex RL41 = True"
| "holds_ReadMutex RL42 = True"
| "holds_ReadMutex RU50 = True"
| "holds_ReadMutex RU52 = True"
| "holds_ReadMutex RU53_load = True"
| "holds_ReadMutex RU53_notify = True"
| "holds_ReadMutex RU55 = True"
| "holds_ReadMutex _ = False"

text \<open>
  A writer from the moment it has taken \<open>WriteMutex\<close> in \<open>WriteLock\<close> until it gives
  it back in \<open>WriteUnlock\<close>: in its critical section, or waiting for the readers to
  leave.
\<close>

fun in_write_section :: "pc \<Rightarrow> bool" where
  "in_write_section WL72 = True"
| "in_write_section WL74_load = True"
| "in_write_section WL74_wait = True"
| "in_write_section WL74_blocked = True"
| "in_write_section WL76 = True"
| "in_write_section Writing = True"
| "in_write_section WU82 = True"
| "in_write_section _ = False"

text \<open>
  A writer that has set \<open>IsCondVarWaiting\<close> and not yet been woken; and one that has
  moreover seen a positive \<open>ReadCounter\<close>, so that it is about to block in \<open>wait\<close>
  or is blocked there.
\<close>

fun announced :: "pc \<Rightarrow> bool" where
  "announced WL74_load = True"
| "announced WL74_wait = True"
| "announced WL74_blocked = True"
| "announced _ = False"

fun waiting :: "pc \<Rightarrow> bool" where
  "waiting WL74_wait = True"
| "waiting WL74_blocked = True"
| "waiting _ = False"

text \<open>
  A reader in \<open>ReadUnlock\<close> between its \<open>fetch_sub\<close> and the end of the notification
  loop, and the number of its statements up to and including the next \<open>notify_all\<close>
  when the counter is 0 and the flag is set.
\<close>

fun notifying :: "pc \<Rightarrow> bool" where
  "notifying RU52 = True"
| "notifying RU53_load = True"
| "notifying RU53_notify = True"
| "notifying _ = False"

fun steps_to_notify :: "pc \<Rightarrow> nat" where
  "steps_to_notify RU52 = 3"
| "steps_to_notify RU53_load = 2"
| "steps_to_notify _ = 1"

text \<open>The invariant of the interleaved system used in the proofs.\<close>

definition WriteMutex_owned :: "rwm \<Rightarrow> bool" where
  "WriteMutex_owned s = (\<forall>t. holds_WriteMutex (pc_of s t) \<longrightarrow> WriteMutex s = Some t)"

definition WriteMutex_inside :: "rwm \<Rightarrow> bool" where
  "WriteMutex_inside s = (\<forall>t. WriteMutex s = Some t \<longrightarrow> holds_WriteMutex (pc_of s t))"

definition ReadMutex_owned :: "rwm \<Rightarrow> bool" where
  "ReadMutex_owned s = (\<forall>t. holds_ReadMutex (pc_of s t) \<longrightarrow> ReadMutex s = Some t)"

definition flag_announced :: "rwm \<Rightarrow> bool" where
  "flag_announced s = (\<forall>t. announced (pc_of s t) \<longrightarrow> IsCondVarWaiting s)"

definition wakeup_pending :: "rwm \<Rightarrow> bool" where
  "wakeup_pending s =
     ((\<exists>w. waiting (pc_of s w)) \<and> ReadCounter s = 0 \<longrightarrow> (\<exists>r. notifying (pc_of s r)))"

definition rwm_invariant :: "rwm \<Rightarrow> bool" where
  "rwm_invariant s =
     (WriteMutex_owned s \<and> WriteMutex_inside s \<and> ReadMutex_owned s \<and>
      flag_announced s \<and> wakeup_pending s)"

text \<open>
  For executions without spurious wake-ups, by at most \<open>N\<close> threads (those numbered
  below \<open>N\<close>): the thread an event belongs to; the program points of a reader that
  \<open>ReadCounter\<close> counts, from after its \<open>fetch_add\<close> to before its \<open>fetch_sub\<close>; the
  set of these readers; and the program points at which a thread has seen, or been told,
  that the readers have left.
\<close>

fun thread_of :: "event \<Rightarrow> tid" where
  "thread_of (Call_ReadLock t) = t"
| "thread_of (Call_ReadUnlock t) = t"
| "thread_of (Call_WriteLock t) = t"
| "thread_of (Call_WriteUnlock t) = t"
| "thread_of (Exec t) = t"
| "thread_of (Spurious_wakeup t) = t"

fun counted :: "pc \<Rightarrow> bool" where
  "counted RL42 = True"
| "counted RL43 = True"
| "counted Reading = True"
| "counted RU49 = True"
| "counted RU50 = True"
| "counted _ = False"

definition readers_inside :: "nat \<Rightarrow> rwm \<Rightarrow> tid set" where
  "readers_inside N s = {t. t < N \<and> counted (pc_of s t)}"

fun drained :: "pc \<Rightarrow> bool" where
  "drained RU53_load = True"
| "drained RU53_notify = True"
| "drained WL76 = True"
| "drained Writing = True"
| "drained WU82 = True"
| "drained _ = False"

definition quiet_invariant :: "nat \<Rightarrow> rwm \<Rightarrow> bool" where
  "quiet_invariant N s =
     ((\<forall>t. N \<le> t \<longrightarrow> pc_of s t = Idle) \<and>
      ReadCounter s = of_nat (card (readers_inside N s)) \<and>
      (\<forall>t. drained (pc_of s t) \<longrightarrow> ReadCounter s = 0))"

text \<open>
  Three executions with a reader, thread 0, and a writer, thread 1. In each the reader
  first takes shared access (\<open>ReadLock\<close>, lines 39 to 43) and the writer then calls
  \<open>WriteLock\<close>, takes \<open>WriteMutex\<close>, sets \<open>IsCondVarWaiting\<close> and loads a positive
  \<open>ReadCounter\<close>.
  \<^item> \<open>blocked_writer\<close>: the writer then blocks in \<open>Cv.wait\<close>.
  \<^item> \<open>spurious_return\<close>: the blocked writer's \<open>wait\<close> returns with no notification,
    and the writer executes line 76 and returns from \<open>WriteLock\<close>.
  \<^item> \<open>notification_race\<close>: before the writer blocks, the reader calls \<open>ReadUnlock\<close>,
    brings the counter to 0, sees the flag and notifies, with nobody blocked yet; only
    then does the writer block.
\<close>

definition reader_in :: "event list" where
  "reader_in = [Call_ReadLock 0, Exec 0, Exec 0, Exec 0, Exec 0, Exec 0]"

definition writer_sees_reader :: "event list" where
  "writer_sees_reader = reader_in @ [Call_WriteLock 1, Exec 1, Exec 1, Exec 1]"

definition blocked_writer :: "event list" where
  "blocked_writer = writer_sees_reader @ [Exec 1]"

definition spurious_return :: "event list" where
  "spurious_return = blocked_writer @ [Spurious_wakeup 1, Exec 1]"

definition notification_race :: "event list" where
  "notification_race =
     writer_sees_reader @ [Call_ReadUnlock 0, Exec 0, Exec 0, Exec 0, Exec 0, Exec 0] @ [Exec 1]"

text \<open>
  A fourth execution: after \<open>blocked_writer\<close>, a new reader, thread 2, calls
  \<open>ReadLock\<close> and stands before line 39.
\<close>

definition late_reader :: "event list" where
  "late_reader = blocked_writer @ [Call_ReadLock 2]"

text \<open>
  The program points inside \<open>ReadLock\<close>, and the converse of \<open>ReadMutex_owned\<close>:
  \<open>ReadMutex\<close> is held only by a thread at one of the program points where it holds
  it.
\<close>

fun in_ReadLock :: "pc \<Rightarrow> bool" where
  "in_ReadLock RL39 = True"
| "in_ReadLock RL40 = True"
| "in_ReadLock RL41 = True"
| "in_ReadLock RL42 = True"
| "in_ReadLock RL43 = True"
| "in_ReadLock _ = False"

definition ReadMutex_inside :: "rwm \<Rightarrow> bool" where
  "ReadMutex_inside s = (\<forall>t. ReadMutex s = Some t \<longrightarrow> holds_ReadMutex (pc_of s t))"

text \<open>
  Two more executions. \<open>writer_at_gate\<close>: reader 0 has taken \<open>WriteMutex\<close> at line 39
  of \<open>ReadLock\<close>, and writer 1 then calls \<open>WriteLock\<close> and stands at line 70,
  \<^verbatim>\<open>WriteMutex.lock()\<close>. \<open>overtaking\<close>: a new reader, thread 2, then calls
  \<open>ReadLock\<close>; reader 0 finishes its \<open>ReadLock\<close>, which frees \<open>WriteMutex\<close>; and
  reader 2 runs lines 39 to 43, while the writer has not moved.
\<close>

definition writer_at_gate :: "event list" where
  "writer_at_gate = [Call_ReadLock 0, Exec 0, Call_WriteLock 1]"

definition overtaking :: "event list" where
  "overtaking =
     writer_at_gate @ [Call_ReadLock 2, Exec 0, Exec 0, Exec 0, Exec 0,
                       Exec 2, Exec 2, Exec 2, Exec 2, Exec 2]"


section \<open>Properties of the per-thread wrapper\<close>

subsection \<open>Arithmetic of the 64-bit depths\<close>

lemma unat_max64: "unat (- 1 :: 64 word) = 2 ^ 64 - 1"
  by (simp add: unsigned_minus_1_eq_mask mask_eq_exp_minus_1)

lemma unat_succ: "unat (x :: 64 word) + 1 < 2 ^ 64 \<Longrightarrow> unat (x + 1) = unat x + 1"
  by (simp add: unat_word_ariths)

lemma succ_nonzero: "unat (x :: 64 word) + 1 < 2 ^ 64 \<Longrightarrow> x + 1 \<noteq> 0"
  using unat_succ [of x] by auto

lemma unat_pred: "(x :: 64 word) \<noteq> 0 \<Longrightarrow> unat (x - 1) = unat x - 1"
  by (simp add: unat_minus_one)

lemma unat_of_nat64: "m < 2 ^ 64 \<Longrightarrow> unat (of_nat m :: 64 word) = m"
  by (simp add: unat_of_nat)

lemma of_nat64_eq_0: "k < 2 ^ 64 \<Longrightarrow> (of_nat k :: 64 word) = 0 \<longleftrightarrow> k = 0"
  using unat_of_nat64 [of k] by auto

lemma of_nat64_eq_1: "k < 2 ^ 64 \<Longrightarrow> (of_nat k :: 64 word) = 1 \<longleftrightarrow> k = 1"
  using unat_of_nat64 [of k] by auto

lemma of_nat64_pos: "k < 2 ^ 64 \<Longrightarrow> 0 < (of_nat k :: 64 word) \<longleftrightarrow> 0 < k"
  by (simp add: word_gt_0 of_nat64_eq_0)

subsection \<open>Running sequences of methods\<close>

lemma run_operations_append:
  "run_operations (xs @ ys) s =
     (fst (run_operations ys (fst (run_operations xs s))),
      snd (run_operations xs s) @ snd (run_operations ys (fst (run_operations xs s))))"
  by (induction xs arbitrary: s) (simp_all split: prod.splits)

lemma rwmx_apply_all_append:
  "rwmx_apply_all (xs @ ys) a =
     (case rwmx_apply_all xs a of None \<Rightarrow> None | Some a' \<Rightarrow> rwmx_apply_all ys a')"
  by (induction xs arbitrary: a) (simp_all split: option.splits)

lemma rwmx_trace_Cons:
  "rwmx_trace (m # ms) s = snd (call_operation m s) @ rwmx_trace ms (fst (call_operation m s))"
  by (simp add: rwmx_trace_def split: prod.splits)

lemma final_counters_Cons:
  "final_counters (m # ms) s = final_counters ms (fst (call_operation m s))"
  by (simp add: final_counters_def split: prod.splits)

lemma concat_replicate_Nil: "concat (replicate k []) = []"
  by (induction k) simp_all

lemma nested_ReadLocks:
  "LocalThreadWriteLockCounter s = 0 \<Longrightarrow> LocalThreadReadLockCounter s \<noteq> 0 \<Longrightarrow>
   unat (LocalThreadReadLockCounter s) + n \<le> 2 ^ 64 \<Longrightarrow>
   run_operations (replicate n ReadLock) s =
     (s\<lparr>LocalThreadReadLockCounter := LocalThreadReadLockCounter s + of_nat n\<rparr>, replicate n [])"
proof (induction n arbitrary: s)
  case 0
  then show ?case by simp
next
  case (Suc n)
  let ?s1 = "s\<lparr>LocalThreadReadLockCounter := LocalThreadReadLockCounter s + 1\<rparr>"
  have call: "Recursive_ReadLock s = (?s1, [])"
    using Suc.prems by (simp add: Recursive_ReadLock_def)
  show ?case
  proof (cases n)
    case 0
    then show ?thesis using call by simp
  next
    case (Suc m)
    have lt: "unat (LocalThreadReadLockCounter s) + 1 < 2 ^ 64"
      using Suc.prems(3) Suc by simp
    have "run_operations (replicate n ReadLock) ?s1 =
            (?s1\<lparr>LocalThreadReadLockCounter := LocalThreadReadLockCounter ?s1 + of_nat n\<rparr>, replicate n [])"
      using Suc.IH [of ?s1] Suc.prems unat_succ [OF lt] succ_nonzero [OF lt] by simp
    then show ?thesis using call by (simp add: add.assoc add.commute)
  qed
qed

lemma nested_ReadUnlocks:
  "LocalThreadWriteLockCounter s = 0 \<Longrightarrow> n \<le> unat (LocalThreadReadLockCounter s - 1) \<Longrightarrow>
   run_operations (replicate n ReadUnlock) s =
     (s\<lparr>LocalThreadReadLockCounter := LocalThreadReadLockCounter s - of_nat n\<rparr>, replicate n [])"
proof (induction n arbitrary: s)
  case 0
  then show ?case by simp
next
  case (Suc n)
  let ?s1 = "s\<lparr>LocalThreadReadLockCounter := LocalThreadReadLockCounter s - 1\<rparr>"
  have ne: "LocalThreadReadLockCounter s - 1 \<noteq> 0"
    using Suc.prems(2) by auto
  then have call: "Recursive_ReadUnlock s = (?s1, [])"
    using Suc.prems(1) by (simp add: Recursive_ReadUnlock_def)
  have "run_operations (replicate n ReadUnlock) ?s1 =
          (?s1\<lparr>LocalThreadReadLockCounter := LocalThreadReadLockCounter ?s1 - of_nat n\<rparr>, replicate n [])"
    using Suc.IH [of ?s1] Suc.prems unat_pred [OF ne] by simp
  then show ?case using call by (simp add: diff_diff_eq add.commute)
qed

lemma nested_WriteLocks:
  "LocalThreadWriteLockCounter s \<noteq> 0 \<Longrightarrow>
   unat (LocalThreadWriteLockCounter s) + n \<le> 2 ^ 64 \<Longrightarrow>
   run_operations (replicate n WriteLock) s =
     (s\<lparr>LocalThreadWriteLockCounter := LocalThreadWriteLockCounter s + of_nat n\<rparr>, replicate n [])"
proof (induction n arbitrary: s)
  case 0
  then show ?case by simp
next
  case (Suc n)
  let ?s1 = "s\<lparr>LocalThreadWriteLockCounter := LocalThreadWriteLockCounter s + 1\<rparr>"
  have call: "Recursive_WriteLock s = (?s1, [])"
    using Suc.prems by (simp add: Recursive_WriteLock_def)
  show ?case
  proof (cases n)
    case 0
    then show ?thesis using call by simp
  next
    case (Suc m)
    have lt: "unat (LocalThreadWriteLockCounter s) + 1 < 2 ^ 64"
      using Suc.prems(2) Suc by simp
    have "run_operations (replicate n WriteLock) ?s1 =
            (?s1\<lparr>LocalThreadWriteLockCounter := LocalThreadWriteLockCounter ?s1 + of_nat n\<rparr>, replicate n [])"
      using Suc.IH [of ?s1] Suc.prems unat_succ [OF lt] succ_nonzero [OF lt] by simp
    then show ?thesis using call by (simp add: add.assoc add.commute)
  qed
qed

lemma nested_WriteUnlocks:
  "n \<le> unat (LocalThreadWriteLockCounter s - 1) \<Longrightarrow>
   run_operations (replicate n WriteUnlock) s =
     (s\<lparr>LocalThreadWriteLockCounter := LocalThreadWriteLockCounter s - of_nat n\<rparr>, replicate n [])"
proof (induction n arbitrary: s)
  case 0
  then show ?case by simp
next
  case (Suc n)
  let ?s1 = "s\<lparr>LocalThreadWriteLockCounter := LocalThreadWriteLockCounter s - 1\<rparr>"
  have ne: "LocalThreadWriteLockCounter s - 1 \<noteq> 0"
    using Suc.prems(1) by auto
  then have call: "Recursive_WriteUnlock s = (?s1, [])"
    by (simp add: Recursive_WriteUnlock_def)
  have "run_operations (replicate n WriteUnlock) ?s1 =
          (?s1\<lparr>LocalThreadWriteLockCounter := LocalThreadWriteLockCounter ?s1 - of_nat n\<rparr>, replicate n [])"
    using Suc.IH [of ?s1] Suc.prems unat_pred [OF ne] by simp
  then show ?case using call by (simp add: diff_diff_eq add.commute)
qed

lemma ReadLocks_from_clean:
  assumes "1 \<le> n" and "n \<le> 2 ^ 64"
  shows "run_operations (replicate n ReadLock) clean =
           (\<lparr>LocalThreadReadLockCounter = of_nat n, LocalThreadWriteLockCounter = 0\<rparr>,
            [Rwmx_ReadLock] # replicate (n - 1) [])"
proof -
  obtain m where n: "n = Suc m" and m: "m < 2 ^ 64"
    using assms by (cases n) auto
  let ?s1 = "\<lparr>LocalThreadReadLockCounter = 1, LocalThreadWriteLockCounter = 0\<rparr>"
  have first: "Recursive_ReadLock clean = (?s1, [Rwmx_ReadLock])"
    by (simp add: Recursive_ReadLock_def clean_def)
  have "run_operations (replicate m ReadLock) ?s1 =
          (\<lparr>LocalThreadReadLockCounter = 1 + of_nat m, LocalThreadWriteLockCounter = 0\<rparr>,
           replicate m [])"
    using nested_ReadLocks [of ?s1 m] m by simp
  then show ?thesis using first by (simp add: n)
qed

lemma ReadUnlocks_to_clean:
  assumes "1 \<le> n" and "n \<le> 2 ^ 64"
  shows "run_operations (replicate n ReadUnlock)
           \<lparr>LocalThreadReadLockCounter = of_nat n, LocalThreadWriteLockCounter = 0\<rparr> =
           (clean, replicate (n - 1) [] @ [[Rwmx_ReadUnlock]])"
proof -
  obtain m where n: "n = Suc m" and m: "m < 2 ^ 64"
    using assms by (cases n) auto
  let ?s1 = "\<lparr>LocalThreadReadLockCounter = 1, LocalThreadWriteLockCounter = 0\<rparr>"
  let ?s2 = "\<lparr>LocalThreadReadLockCounter = 1 + of_nat m, LocalThreadWriteLockCounter = 0\<rparr>"
  have down: "run_operations (replicate m ReadUnlock) ?s2 = (?s1, replicate m [])"
    using nested_ReadUnlocks [of ?s2 m] m by (simp add: unat_of_nat64)
  have last: "Recursive_ReadUnlock ?s1 = (clean, [Rwmx_ReadUnlock])"
    by (simp add: Recursive_ReadUnlock_def clean_def)
  have snoc: "replicate n ReadUnlock = replicate m ReadUnlock @ [ReadUnlock]"
    by (simp add: n replicate_append_same)
  have "run_operations (replicate n ReadUnlock) ?s2 = (clean, replicate m [] @ [[Rwmx_ReadUnlock]])"
    unfolding snoc run_operations_append using down last by simp
  then show ?thesis by (simp add: n)
qed

lemma WriteLocks_from_clean:
  assumes "1 \<le> n" and "n \<le> 2 ^ 64"
  shows "run_operations (replicate n WriteLock) clean =
           (\<lparr>LocalThreadReadLockCounter = 0, LocalThreadWriteLockCounter = of_nat n\<rparr>,
            [Rwmx_WriteLock] # replicate (n - 1) [])"
proof -
  obtain m where n: "n = Suc m" and m: "m < 2 ^ 64"
    using assms by (cases n) auto
  let ?s1 = "\<lparr>LocalThreadReadLockCounter = 0, LocalThreadWriteLockCounter = 1\<rparr>"
  have first: "Recursive_WriteLock clean = (?s1, [Rwmx_WriteLock])"
    by (simp add: Recursive_WriteLock_def clean_def)
  have "run_operations (replicate m WriteLock) ?s1 =
          (\<lparr>LocalThreadReadLockCounter = 0, LocalThreadWriteLockCounter = 1 + of_nat m\<rparr>,
           replicate m [])"
    using nested_WriteLocks [of ?s1 m] m by simp
  then show ?thesis using first by (simp add: n)
qed

lemma WriteUnlocks_to_clean:
  assumes "1 \<le> n" and "n \<le> 2 ^ 64"
  shows "run_operations (replicate n WriteUnlock)
           \<lparr>LocalThreadReadLockCounter = 0, LocalThreadWriteLockCounter = of_nat n\<rparr> =
           (clean, replicate (n - 1) [] @ [[Rwmx_WriteUnlock]])"
proof -
  obtain m where n: "n = Suc m" and m: "m < 2 ^ 64"
    using assms by (cases n) auto
  let ?s1 = "\<lparr>LocalThreadReadLockCounter = 0, LocalThreadWriteLockCounter = 1\<rparr>"
  let ?s2 = "\<lparr>LocalThreadReadLockCounter = 0, LocalThreadWriteLockCounter = 1 + of_nat m\<rparr>"
  have down: "run_operations (replicate m WriteUnlock) ?s2 = (?s1, replicate m [])"
    using nested_WriteUnlocks [of m ?s2] m by (simp add: unat_of_nat64)
  have last: "Recursive_WriteUnlock ?s1 = (clean, [Rwmx_WriteUnlock])"
    by (simp add: Recursive_WriteUnlock_def clean_def)
  have snoc: "replicate n WriteUnlock = replicate m WriteUnlock @ [WriteUnlock]"
    by (simp add: n replicate_append_same)
  have "run_operations (replicate n WriteUnlock) ?s2 = (clean, replicate m [] @ [[Rwmx_WriteUnlock]])"
    unfolding snoc run_operations_append using down last by simp
  then show ?thesis by (simp add: n)
qed

subsection \<open>The four methods, one call at a time\<close>

text \<open>
  C3. \<open>RecursiveReadWriteMutex::WriteLock\<close>, called with write depth 0 and a positive
  read depth, calls \<open>Rwmx.ReadUnlock\<close> and then \<open>Rwmx.WriteLock\<close>, in this order:
  after the first of the two calls the thread holds nothing, after the second it holds
  exclusive access. Every call adds one to the write depth (in \<open>std::size_t\<close>
  arithmetic) and leaves the read depth alone; a nested call, with a positive write
  depth, makes no call on \<open>Rwmx\<close>.
\<close>

theorem WriteLock_upgrade_releases_then_acquires:
  "(LocalThreadWriteLockCounter s = 0 \<and> 0 < LocalThreadReadLockCounter s \<longrightarrow>
      snd (Recursive_WriteLock s) = [Rwmx_ReadUnlock, Rwmx_WriteLock] \<and>
      rwmx_apply_all (take 1 (snd (Recursive_WriteLock s))) SharedAccess = Some NoAccess \<and>
      rwmx_apply_all (snd (Recursive_WriteLock s)) SharedAccess = Some ExclusiveAccess) \<and>
   (LocalThreadWriteLockCounter s = 0 \<and> LocalThreadReadLockCounter s = 0 \<longrightarrow>
      snd (Recursive_WriteLock s) = [Rwmx_WriteLock]) \<and>
   (0 < LocalThreadWriteLockCounter s \<longrightarrow> snd (Recursive_WriteLock s) = []) \<and>
   LocalThreadWriteLockCounter (fst (Recursive_WriteLock s)) = LocalThreadWriteLockCounter s + 1 \<and>
   LocalThreadReadLockCounter (fst (Recursive_WriteLock s)) = LocalThreadReadLockCounter s"
  by (simp add: Recursive_WriteLock_def)

theorem WriteLock_upgrade_witness:
  "LocalThreadWriteLockCounter \<lparr>LocalThreadReadLockCounter = 2, LocalThreadWriteLockCounter = 0\<rparr> = 0 \<and>
   0 < LocalThreadReadLockCounter \<lparr>LocalThreadReadLockCounter = 2, LocalThreadWriteLockCounter = 0\<rparr> \<and>
   Recursive_WriteLock \<lparr>LocalThreadReadLockCounter = 2, LocalThreadWriteLockCounter = 0\<rparr> =
     (\<lparr>LocalThreadReadLockCounter = 2, LocalThreadWriteLockCounter = 1\<rparr>,
      [Rwmx_ReadUnlock, Rwmx_WriteLock]) \<and>
   0 < LocalThreadWriteLockCounter \<lparr>LocalThreadReadLockCounter = 2, LocalThreadWriteLockCounter = 3\<rparr> \<and>
   Recursive_WriteLock \<lparr>LocalThreadReadLockCounter = 2, LocalThreadWriteLockCounter = 3\<rparr> =
     (\<lparr>LocalThreadReadLockCounter = 2, LocalThreadWriteLockCounter = 4\<rparr>, [])"
  using WriteLock_upgrade_releases_then_acquires
          [of "\<lparr>LocalThreadReadLockCounter = 2, LocalThreadWriteLockCounter = 0\<rparr>"]
        WriteLock_upgrade_releases_then_acquires
          [of "\<lparr>LocalThreadReadLockCounter = 2, LocalThreadWriteLockCounter = 3\<rparr>"]
  by (simp add: prod_eq_iff)

text \<open>
  C4. \<open>RecursiveReadWriteMutex::WriteUnlock\<close>, called with write depth 1, calls
  \<open>Rwmx.WriteUnlock\<close> and then, when the read depth is positive, \<open>Rwmx.ReadLock\<close>:
  the thread that held exclusive access holds shared access afterwards, not nothing.
  Every call subtracts one from the write depth and leaves the read depth alone; a call
  that leaves the write depth positive makes no call on \<open>Rwmx\<close>.
\<close>

theorem WriteUnlock_downgrade_restores_read:
  "(LocalThreadWriteLockCounter s = 1 \<and> 0 < LocalThreadReadLockCounter s \<longrightarrow>
      snd (Recursive_WriteUnlock s) = [Rwmx_WriteUnlock, Rwmx_ReadLock] \<and>
      rwmx_apply_all (snd (Recursive_WriteUnlock s)) ExclusiveAccess = Some SharedAccess) \<and>
   (LocalThreadWriteLockCounter s = 1 \<and> LocalThreadReadLockCounter s = 0 \<longrightarrow>
      snd (Recursive_WriteUnlock s) = [Rwmx_WriteUnlock] \<and>
      rwmx_apply_all (snd (Recursive_WriteUnlock s)) ExclusiveAccess = Some NoAccess) \<and>
   (0 < LocalThreadWriteLockCounter (fst (Recursive_WriteUnlock s)) \<longrightarrow>
      snd (Recursive_WriteUnlock s) = []) \<and>
   LocalThreadWriteLockCounter (fst (Recursive_WriteUnlock s)) = LocalThreadWriteLockCounter s - 1 \<and>
   LocalThreadReadLockCounter (fst (Recursive_WriteUnlock s)) = LocalThreadReadLockCounter s"
  by (simp add: Recursive_WriteUnlock_def word_gt_0)

theorem WriteUnlock_downgrade_witness:
  "LocalThreadWriteLockCounter \<lparr>LocalThreadReadLockCounter = 2, LocalThreadWriteLockCounter = 1\<rparr> = 1 \<and>
   0 < LocalThreadReadLockCounter \<lparr>LocalThreadReadLockCounter = 2, LocalThreadWriteLockCounter = 1\<rparr> \<and>
   Recursive_WriteUnlock \<lparr>LocalThreadReadLockCounter = 2, LocalThreadWriteLockCounter = 1\<rparr> =
     (\<lparr>LocalThreadReadLockCounter = 2, LocalThreadWriteLockCounter = 0\<rparr>,
      [Rwmx_WriteUnlock, Rwmx_ReadLock]) \<and>
   Recursive_WriteUnlock \<lparr>LocalThreadReadLockCounter = 0, LocalThreadWriteLockCounter = 1\<rparr> =
     (\<lparr>LocalThreadReadLockCounter = 0, LocalThreadWriteLockCounter = 0\<rparr>, [Rwmx_WriteUnlock]) \<and>
   Recursive_WriteUnlock \<lparr>LocalThreadReadLockCounter = 2, LocalThreadWriteLockCounter = 3\<rparr> =
     (\<lparr>LocalThreadReadLockCounter = 2, LocalThreadWriteLockCounter = 2\<rparr>, [])"
  using WriteUnlock_downgrade_restores_read
          [of "\<lparr>LocalThreadReadLockCounter = 2, LocalThreadWriteLockCounter = 1\<rparr>"]
        WriteUnlock_downgrade_restores_read
          [of "\<lparr>LocalThreadReadLockCounter = 0, LocalThreadWriteLockCounter = 1\<rparr>"]
        WriteUnlock_downgrade_restores_read
          [of "\<lparr>LocalThreadReadLockCounter = 2, LocalThreadWriteLockCounter = 3\<rparr>"]
  by (simp add: prod_eq_iff)

text \<open>
  C8. With a positive write depth, \<open>RecursiveReadWriteMutex::ReadLock\<close> and
  \<open>RecursiveReadWriteMutex::ReadUnlock\<close> do nothing: they make no call on \<open>Rwmx\<close>,
  so what the thread holds on it is unchanged, and both thread-local counters keep
  their values.
\<close>

theorem read_methods_noop_inside_write:
  "0 < LocalThreadWriteLockCounter s \<Longrightarrow>
   Recursive_ReadLock s = (s, []) \<and> Recursive_ReadUnlock s = (s, []) \<and>
   rwmx_apply_all (snd (Recursive_ReadLock s)) a = Some a \<and>
   rwmx_apply_all (snd (Recursive_ReadUnlock s)) a = Some a"
  by (simp add: Recursive_ReadLock_def Recursive_ReadUnlock_def word_gt_0)

theorem read_methods_noop_witness:
  "0 < LocalThreadWriteLockCounter \<lparr>LocalThreadReadLockCounter = 1, LocalThreadWriteLockCounter = 2\<rparr> \<and>
   Recursive_ReadLock \<lparr>LocalThreadReadLockCounter = 1, LocalThreadWriteLockCounter = 2\<rparr> =
     (\<lparr>LocalThreadReadLockCounter = 1, LocalThreadWriteLockCounter = 2\<rparr>, []) \<and>
   Recursive_ReadUnlock \<lparr>LocalThreadReadLockCounter = 1, LocalThreadWriteLockCounter = 2\<rparr> =
     (\<lparr>LocalThreadReadLockCounter = 1, LocalThreadWriteLockCounter = 2\<rparr>, [])"
proof -
  have h: "0 < LocalThreadWriteLockCounter \<lparr>LocalThreadReadLockCounter = 1, LocalThreadWriteLockCounter = 2\<rparr>"
    by simp
  show ?thesis
    using read_methods_noop_inside_write [OF h] h by simp
qed

text \<open>
  C9, as stated, fails. An unlock without a matching lock is not treated as an error:
  from the clean state \<open>ReadUnlock\<close> and \<open>WriteUnlock\<close> return, with a depth that
  has wrapped and no call on \<open>Rwmx\<close>, and the thread goes on: the \<open>ReadLock\<close> that
  follows the unmatched \<open>ReadUnlock\<close> takes no lock at all.
\<close>

theorem unmatched_unlock_fail_fast_counterexample:
  "Recursive_ReadUnlock clean =
     (\<lparr>LocalThreadReadLockCounter = - 1, LocalThreadWriteLockCounter = 0\<rparr>, []) \<and>
   Recursive_WriteUnlock clean =
     (\<lparr>LocalThreadReadLockCounter = 0, LocalThreadWriteLockCounter = - 1\<rparr>, []) \<and>
   Recursive_ReadLock (fst (Recursive_ReadUnlock clean)) = (clean, [])"
  by (simp add: Recursive_ReadUnlock_def Recursive_WriteUnlock_def Recursive_ReadLock_def clean_def)

text \<open>
  C9, amended. An unlock without a matching lock goes undetected: \<open>ReadUnlock\<close> with
  both depths 0, and \<open>WriteUnlock\<close> with write depth 0, return without a call on
  \<open>Rwmx\<close>, the decremented depth wraps, and the thread continues with the invariant
  broken: a depth is positive while the thread holds no matching access.
\<close>

theorem unmatched_unlock_goes_undetected:
  "(LocalThreadReadLockCounter s = 0 \<and> LocalThreadWriteLockCounter s = 0 \<longrightarrow>
      Recursive_ReadUnlock s = (s\<lparr>LocalThreadReadLockCounter := - 1\<rparr>, []) \<and>
      \<not> access_invariant (fst (Recursive_ReadUnlock s)) (Some NoAccess)) \<and>
   (LocalThreadWriteLockCounter s = 0 \<longrightarrow>
      Recursive_WriteUnlock s = (s\<lparr>LocalThreadWriteLockCounter := - 1\<rparr>, []) \<and>
      \<not> access_invariant (fst (Recursive_WriteUnlock s)) (Some NoAccess) \<and>
      \<not> access_invariant (fst (Recursive_WriteUnlock s)) (Some SharedAccess))"
  by (simp add: Recursive_ReadUnlock_def Recursive_WriteUnlock_def access_invariant_def word_gt_0)

theorem unmatched_unlock_undetected_witness:
  "LocalThreadReadLockCounter clean = 0 \<and> LocalThreadWriteLockCounter clean = 0 \<and>
   fst (Recursive_ReadUnlock clean) = \<lparr>LocalThreadReadLockCounter = - 1, LocalThreadWriteLockCounter = 0\<rparr> \<and>
   fst (Recursive_WriteUnlock clean) = \<lparr>LocalThreadReadLockCounter = 0, LocalThreadWriteLockCounter = - 1\<rparr>"
  using unmatched_unlock_goes_undetected [of clean]
  by (simp add: clean_def)

text \<open>
  C10. The depths are unsigned: \<open>ReadUnlock\<close> with both depths 0 leaves the read depth
  at \<open>2 ^ 64 - 1\<close>, and \<open>WriteUnlock\<close> with write depth 0 leaves the write depth at
  \<open>2 ^ 64 - 1\<close>. The sequence \<open>WriteLock; ReadLock; WriteUnlock; ReadUnlock\<close> from the
  clean state ends with read depth \<open>2 ^ 64 - 1\<close>: the \<open>ReadLock\<close> inside the write
  section is not counted, and the four methods all return.
\<close>

theorem unmatched_unlock_wraps_to_max:
  "(LocalThreadReadLockCounter s = 0 \<and> LocalThreadWriteLockCounter s = 0 \<longrightarrow>
      unat (LocalThreadReadLockCounter (fst (Recursive_ReadUnlock s))) = 2 ^ 64 - 1) \<and>
   (LocalThreadWriteLockCounter s = 0 \<longrightarrow>
      unat (LocalThreadWriteLockCounter (fst (Recursive_WriteUnlock s))) = 2 ^ 64 - 1) \<and>
   run_operations [WriteLock, ReadLock, WriteUnlock, ReadUnlock] clean =
     (\<lparr>LocalThreadReadLockCounter = - 1, LocalThreadWriteLockCounter = 0\<rparr>,
      [[Rwmx_WriteLock], [], [Rwmx_WriteUnlock], []]) \<and>
   unat (LocalThreadReadLockCounter
          (final_counters [WriteLock, ReadLock, WriteUnlock, ReadUnlock] clean)) = 2 ^ 64 - 1"
  by (simp add: Recursive_ReadLock_def Recursive_ReadUnlock_def Recursive_WriteLock_def
      Recursive_WriteUnlock_def final_counters_def clean_def unat_max64)

theorem unmatched_unlock_wraps_witness:
  "LocalThreadReadLockCounter clean = 0 \<and> LocalThreadWriteLockCounter clean = 0 \<and>
   unat (LocalThreadReadLockCounter (fst (Recursive_ReadUnlock clean))) = 18446744073709551615 \<and>
   unat (LocalThreadWriteLockCounter (fst (Recursive_WriteUnlock clean))) = 18446744073709551615"
  using unmatched_unlock_wraps_to_max [of clean]
  by (simp add: clean_def)

subsection \<open>Nested pairs\<close>

text \<open>
  C7, as stated for every \<open>n\<close>, fails where the depth wraps: after \<open>2 ^ 64\<close> calls of
  \<open>ReadLock\<close> the read depth is 0 again, so call number \<open>2 ^ 64 + 1\<close> calls
  \<open>Rwmx.ReadLock\<close> a second time, and the first of the unlocks calls
  \<open>Rwmx.ReadUnlock\<close>.
\<close>

theorem nested_pairs_counterexample:
  "rwmx_trace (replicate (2 ^ 64 + 1) ReadLock @ replicate (2 ^ 64 + 1) ReadUnlock) clean =
     [Rwmx_ReadLock, Rwmx_ReadLock, Rwmx_ReadUnlock, Rwmx_ReadUnlock]"
proof -
  define N :: nat where "N = 2 ^ 64"
  have N: "1 \<le> N" "N \<le> 2 ^ 64" by (simp_all add: N_def)
  have zero: "\<lparr>LocalThreadReadLockCounter = of_nat N, LocalThreadWriteLockCounter = 0\<rparr> = clean"
    by (simp add: N_def clean_def)
  let ?s1 = "\<lparr>LocalThreadReadLockCounter = 1, LocalThreadWriteLockCounter = 0\<rparr>"
  have locks: "run_operations (replicate N ReadLock) clean = (clean, [Rwmx_ReadLock] # replicate (N - 1) [])"
    using ReadLocks_from_clean [OF N] by (simp only: zero)
  have unlocks: "run_operations (replicate N ReadUnlock) clean = (clean, replicate (N - 1) [] @ [[Rwmx_ReadUnlock]])"
    using ReadUnlocks_to_clean [OF N] by (simp only: zero)
  have one_more: "Recursive_ReadLock clean = (?s1, [Rwmx_ReadLock])"
    by (simp add: Recursive_ReadLock_def clean_def)
  have one_less: "Recursive_ReadUnlock ?s1 = (clean, [Rwmx_ReadUnlock])"
    by (simp add: Recursive_ReadUnlock_def clean_def)
  have shape: "replicate (N + 1) ReadLock @ replicate (N + 1) ReadUnlock =
                 replicate N ReadLock @ [ReadLock] @ [ReadUnlock] @ replicate N ReadUnlock"
    by (simp add: replicate_append_same)
  have "rwmx_trace (replicate (N + 1) ReadLock @ replicate (N + 1) ReadUnlock) clean =
          [Rwmx_ReadLock, Rwmx_ReadLock, Rwmx_ReadUnlock, Rwmx_ReadUnlock]"
    unfolding shape rwmx_trace_def run_operations_append
    using locks unlocks one_more one_less by (simp add: concat_replicate_Nil)
  then show ?thesis by (simp only: N_def)
qed

text \<open>
  C7, amended. For every \<open>n\<close> from 1 to \<open>2 ^ 64\<close>, \<open>n\<close> calls of \<open>ReadLock\<close> followed
  by \<open>n\<close> calls of \<open>ReadUnlock\<close>, from the clean state, call \<open>Rwmx.ReadLock\<close> once,
  in the first lock, and \<open>Rwmx.ReadUnlock\<close> once, in the last unlock; the calls on
  \<open>Rwmx\<close> and the final counters are those of a single pair. The same holds for
  \<open>WriteLock\<close> and \<open>WriteUnlock\<close>.
\<close>

theorem nested_pairs_collapse:
  assumes "1 \<le> n" and "n \<le> 2 ^ 64"
  shows "run_operations (replicate n ReadLock @ replicate n ReadUnlock) clean =
           (clean, [Rwmx_ReadLock] # replicate (n - 1) [] @ replicate (n - 1) [] @ [[Rwmx_ReadUnlock]]) \<and>
         rwmx_trace (replicate n ReadLock @ replicate n ReadUnlock) clean =
           rwmx_trace [ReadLock, ReadUnlock] clean \<and>
         final_counters (replicate n ReadLock @ replicate n ReadUnlock) clean =
           final_counters [ReadLock, ReadUnlock] clean \<and>
         run_operations (replicate n WriteLock @ replicate n WriteUnlock) clean =
           (clean, [Rwmx_WriteLock] # replicate (n - 1) [] @ replicate (n - 1) [] @ [[Rwmx_WriteUnlock]]) \<and>
         rwmx_trace (replicate n WriteLock @ replicate n WriteUnlock) clean =
           rwmx_trace [WriteLock, WriteUnlock] clean \<and>
         final_counters (replicate n WriteLock @ replicate n WriteUnlock) clean =
           final_counters [WriteLock, WriteUnlock] clean"
proof -
  have r: "run_operations (replicate n ReadLock @ replicate n ReadUnlock) clean =
           (clean, [Rwmx_ReadLock] # replicate (n - 1) [] @ replicate (n - 1) [] @ [[Rwmx_ReadUnlock]])"
    by (simp add: run_operations_append ReadLocks_from_clean [OF assms] ReadUnlocks_to_clean [OF assms])
  have w: "run_operations (replicate n WriteLock @ replicate n WriteUnlock) clean =
           (clean, [Rwmx_WriteLock] # replicate (n - 1) [] @ replicate (n - 1) [] @ [[Rwmx_WriteUnlock]])"
    by (simp add: run_operations_append WriteLocks_from_clean [OF assms] WriteUnlocks_to_clean [OF assms])
  have r1: "run_operations [ReadLock, ReadUnlock] clean = (clean, [[Rwmx_ReadLock], [Rwmx_ReadUnlock]])"
    by (simp add: clean_def Recursive_ReadLock_def Recursive_ReadUnlock_def)
  have w1: "run_operations [WriteLock, WriteUnlock] clean = (clean, [[Rwmx_WriteLock], [Rwmx_WriteUnlock]])"
    by (simp add: clean_def Recursive_WriteLock_def Recursive_WriteUnlock_def)
  show ?thesis
    unfolding rwmx_trace_def final_counters_def r w r1 w1
    by (simp add: concat_replicate_Nil)
qed

theorem nested_pairs_witness:
  "(1::nat) \<le> 3 \<and> (3::nat) \<le> 2 ^ 64 \<and>
   run_operations [ReadLock, ReadLock, ReadLock, ReadUnlock, ReadUnlock, ReadUnlock] clean =
     (clean, [[Rwmx_ReadLock], [], [], [], [], [Rwmx_ReadUnlock]]) \<and>
   run_operations [WriteLock, WriteLock, WriteLock, WriteUnlock, WriteUnlock, WriteUnlock] clean =
     (clean, [[Rwmx_WriteLock], [], [], [], [], [Rwmx_WriteUnlock]])"
proof -
  have a: "(1::nat) \<le> 3" and b: "(3::nat) \<le> 2 ^ 64" by simp_all
  have r: "replicate 3 x = [x, x, x]" for x :: operation by (simp add: numeral_3_eq_3)
  have e: "replicate (3 - 1) [] = [[], []]" by (simp add: numeral_2_eq_2)
  show ?thesis using nested_pairs_collapse [OF a b] a b unfolding r by (simp add: numeral_2_eq_2)
qed

subsection \<open>The invariant over sequences of methods\<close>

lemma open_writes_le: "open_writes st \<le> length st"
  by (induction st) auto

lemma outer_reads_le: "outer_reads st \<le> length st"
  by (induction st) auto

lemma tracked_ReadLock:
  assumes "tracked st s a" and "Suc (length st) < 2 ^ 64"
  shows "\<exists>s' cs a'. Recursive_ReadLock s = (s', cs) \<and> rwmx_apply_all cs a = Some a' \<and>
           tracked (ReadLock # st) s' a'"
proof -
  have b: "open_writes st < 2 ^ 64" "outer_reads st < 2 ^ 64"
    using assms(2) open_writes_le [of st] outer_reads_le [of st] by simp_all
  show ?thesis
    using assms b
    by (auto simp: tracked_def Recursive_ReadLock_def of_nat64_eq_0)
qed

lemma tracked_WriteLock:
  assumes "tracked st s a" and "Suc (length st) < 2 ^ 64"
  shows "\<exists>s' cs a'. Recursive_WriteLock s = (s', cs) \<and> rwmx_apply_all cs a = Some a' \<and>
           tracked (WriteLock # st) s' a'"
proof -
  have b: "open_writes st < 2 ^ 64" "outer_reads st < 2 ^ 64"
    using assms(2) open_writes_le [of st] outer_reads_le [of st] by simp_all
  show ?thesis
    using assms b
    by (auto simp: tracked_def Recursive_WriteLock_def of_nat64_eq_0 of_nat64_pos)
qed

lemma tracked_ReadUnlock:
  assumes "tracked (ReadLock # st) s a"
  shows "\<exists>s' cs a'. Recursive_ReadUnlock s = (s', cs) \<and> rwmx_apply_all cs a = Some a' \<and>
           tracked st s' a'"
proof -
  have b: "Suc (open_writes st) < 2 ^ 64" "Suc (outer_reads st) < 2 ^ 64"
    using assms open_writes_le [of st] outer_reads_le [of st] by (simp_all add: tracked_def)
  have c: "open_writes st < 2 ^ 64" "outer_reads st < 2 ^ 64"
    using b by simp_all
  show ?thesis
    using assms b c of_nat64_eq_1 [of "Suc (outer_reads st)"]
    by (auto simp: tracked_def Recursive_ReadUnlock_def of_nat64_eq_0)
qed

lemma tracked_WriteUnlock:
  assumes "tracked (WriteLock # st) s a"
  shows "\<exists>s' cs a'. Recursive_WriteUnlock s = (s', cs) \<and> rwmx_apply_all cs a = Some a' \<and>
           tracked st s' a'"
proof -
  have b: "Suc (open_writes st) < 2 ^ 64" "Suc (outer_reads st) < 2 ^ 64"
    using assms open_writes_le [of st] outer_reads_le [of st] by (simp_all add: tracked_def)
  have c: "open_writes st < 2 ^ 64" "outer_reads st < 2 ^ 64"
    using b by simp_all
  show ?thesis
    using assms b c of_nat64_eq_1 [of "Suc (open_writes st)"]
    by (auto simp: tracked_def Recursive_WriteUnlock_def of_nat64_eq_0 of_nat64_pos)
qed

lemma max_open_ge: "d \<le> max_open d ms"
  by (cases "(d, ms)" rule: max_open.cases) simp_all

lemma nested_from_ReadUnlock:
  "nested_from st (ReadUnlock # ms) \<Longrightarrow> \<exists>st0. st = ReadLock # st0 \<and> nested_from st0 ms"
  by (cases "(st, ReadUnlock # ms)" rule: nested_from.cases) simp_all

lemma nested_from_WriteUnlock:
  "nested_from st (WriteUnlock # ms) \<Longrightarrow> \<exists>st0. st = WriteLock # st0 \<and> nested_from st0 ms"
  by (cases "(st, WriteUnlock # ms)" rule: nested_from.cases) simp_all

lemma tracked_step:
  assumes "tracked st s a" and "nested_from st (m # ms)" and "max_open (length st) (m # ms) < 2 ^ 64"
  shows "\<exists>st' a'. rwmx_apply_all (snd (call_operation m s)) a = Some a' \<and>
           tracked st' (fst (call_operation m s)) a' \<and> nested_from st' ms \<and>
           max_open (length st') ms < 2 ^ 64"
proof (cases m)
  case ReadLock
  have "Suc (length st) \<le> max_open (Suc (length st)) ms" by (rule max_open_ge)
  then have "Suc (length st) < 2 ^ 64" "max_open (Suc (length st)) ms < 2 ^ 64"
    using assms(3) ReadLock by simp_all
  then show ?thesis
    using tracked_ReadLock [OF assms(1)] assms(2) ReadLock
    by (intro exI [of _ "ReadLock # st"]) auto
next
  case WriteLock
  have "Suc (length st) \<le> max_open (Suc (length st)) ms" by (rule max_open_ge)
  then have "Suc (length st) < 2 ^ 64" "max_open (Suc (length st)) ms < 2 ^ 64"
    using assms(3) WriteLock by simp_all
  then show ?thesis
    using tracked_WriteLock [OF assms(1)] assms(2) WriteLock
    by (intro exI [of _ "WriteLock # st"]) auto
next
  case ReadUnlock
  then obtain st0 where st: "st = ReadLock # st0" and n: "nested_from st0 ms"
    using assms(2) nested_from_ReadUnlock by blast
  have "max_open (length st0) ms < 2 ^ 64"
    using assms(3) ReadUnlock st by simp
  then show ?thesis
    using tracked_ReadUnlock [of st0 s a] assms(1) n ReadUnlock st
    by (intro exI [of _ st0]) auto
next
  case WriteUnlock
  then obtain st0 where st: "st = WriteLock # st0" and n: "nested_from st0 ms"
    using assms(2) nested_from_WriteUnlock by blast
  have "max_open (length st0) ms < 2 ^ 64"
    using assms(3) WriteUnlock st by simp
  then show ?thesis
    using tracked_WriteUnlock [of st0 s a] assms(1) n WriteUnlock st
    by (intro exI [of _ st0]) auto
qed

lemma tracked_prefix:
  "tracked st s a \<Longrightarrow> nested_from st ms \<Longrightarrow> max_open (length st) ms < 2 ^ 64 \<Longrightarrow>
   \<exists>st' a'. rwmx_apply_all (rwmx_trace (take k ms) s) a = Some a' \<and>
     tracked st' (final_counters (take k ms) s) a'"
proof (induction ms arbitrary: st s a k)
  case Nil
  then show ?case by (auto simp: rwmx_trace_def final_counters_def)
next
  case (Cons m ms)
  show ?case
  proof (cases k)
    case 0
    then show ?thesis using Cons.prems(1) by (auto simp: rwmx_trace_def final_counters_def)
  next
    case (Suc j)
    obtain st1 a1 where
      step: "rwmx_apply_all (snd (call_operation m s)) a = Some a1"
        "tracked st1 (fst (call_operation m s)) a1" "nested_from st1 ms"
        "max_open (length st1) ms < 2 ^ 64"
      using tracked_step [OF Cons.prems] by blast
    obtain st' a' where
      "rwmx_apply_all (rwmx_trace (take j ms) (fst (call_operation m s))) a1 = Some a'"
      "tracked st' (final_counters (take j ms) (fst (call_operation m s))) a'"
      using Cons.IH [OF step(2-4), of j] by blast
    then show ?thesis
      using step(1) Suc
      by (auto simp: rwmx_trace_Cons final_counters_Cons rwmx_apply_all_append)
  qed
qed

lemma tracked_access_invariant: "tracked st s a \<Longrightarrow> access_invariant s (Some a)"
proof -
  assume t: "tracked st s a"
  have "open_writes st < 2 ^ 64" "outer_reads st < 2 ^ 64"
    using t open_writes_le [of st] outer_reads_le [of st] by (simp_all add: tracked_def)
  then show ?thesis
    using t by (auto simp: tracked_def access_invariant_def of_nat64_eq_0 of_nat64_pos)
qed

lemma nested_from_ReadLocks:
  "nested_from st (replicate n ReadLock @ ms) = nested_from (replicate n ReadLock @ st) ms"
  by (induction n arbitrary: st) (simp_all add: replicate_app_Cons_same)

lemma nested_from_ReadUnlocks:
  "nested_from (replicate n ReadLock @ st) (replicate n ReadUnlock @ ms) = nested_from st ms"
  by (induction n) simp_all

lemma nested_read_pairs: "nested (replicate n ReadLock @ replicate n ReadUnlock)"
  using nested_from_ReadLocks [of "[]" n "replicate n ReadUnlock"]
    nested_from_ReadUnlocks [of n "[]" "[]"]
  by (simp add: nested_def)

text \<open>
  C2, as stated for every balanced sequence, fails in two ways. Read as \<open>matched\<close>,
  the sequence \<open>WriteLock; ReadLock; WriteUnlock; ReadUnlock\<close> is balanced and ends
  with a positive read depth while the thread holds nothing. Read as \<open>nested\<close>,
  \<open>2 ^ 64\<close> calls of \<open>ReadLock\<close> followed by as many of \<open>ReadUnlock\<close> are balanced,
  and after the locks the read depth has wrapped to 0 while the thread holds shared
  access.
\<close>

theorem balanced_sequence_counterexample:
  "matched [WriteLock, ReadLock, WriteUnlock, ReadUnlock] \<and>
   \<not> access_invariant (final_counters [WriteLock, ReadLock, WriteUnlock, ReadUnlock] clean)
        (held_after [WriteLock, ReadLock, WriteUnlock, ReadUnlock]) \<and>
   nested (replicate (2 ^ 64) ReadLock @ replicate (2 ^ 64) ReadUnlock) \<and>
   \<not> access_invariant
        (final_counters (take (2 ^ 64) (replicate (2 ^ 64) ReadLock @ replicate (2 ^ 64) ReadUnlock)) clean)
        (held_after (take (2 ^ 64) (replicate (2 ^ 64) ReadLock @ replicate (2 ^ 64) ReadUnlock)))"
proof -
  define N :: nat where "N = 2 ^ 64"
  have N: "1 \<le> N" "N \<le> 2 ^ 64" by (simp_all add: N_def)
  have zero: "\<lparr>LocalThreadReadLockCounter = of_nat N, LocalThreadWriteLockCounter = 0\<rparr> = clean"
    by (simp add: N_def clean_def)
  have locks: "run_operations (replicate N ReadLock) clean = (clean, [Rwmx_ReadLock] # replicate (N - 1) [])"
    using ReadLocks_from_clean [OF N] by (simp only: zero)
  have tk: "take N (replicate N ReadLock @ replicate N ReadUnlock) = replicate N ReadLock"
    by simp
  have a: "matched [WriteLock, ReadLock, WriteUnlock, ReadUnlock]"
    by (simp add: matched_def)
  have b: "\<not> access_invariant (final_counters [WriteLock, ReadLock, WriteUnlock, ReadUnlock] clean)
        (held_after [WriteLock, ReadLock, WriteUnlock, ReadUnlock])"
    by (simp add: access_invariant_def final_counters_def held_after_def rwmx_trace_def clean_def
        Recursive_ReadLock_def Recursive_ReadUnlock_def Recursive_WriteLock_def
        Recursive_WriteUnlock_def word_gt_0)
  have c: "nested (replicate N ReadLock @ replicate N ReadUnlock)"
    by (rule nested_read_pairs)
  have d: "\<not> access_invariant
        (final_counters (take N (replicate N ReadLock @ replicate N ReadUnlock)) clean)
        (held_after (take N (replicate N ReadLock @ replicate N ReadUnlock)))"
    unfolding tk final_counters_def held_after_def rwmx_trace_def locks
    by (simp add: concat_replicate_Nil access_invariant_def clean_def)
  show ?thesis
    using a b c d unfolding N_def by blast
qed

text \<open>
  C2, amended. For every properly nested sequence of the four methods (each unlock
  closes the thread's most recent lock still open, which is of its own kind) during
  which the thread never has \<open>2 ^ 64\<close> or more locks open at once, run from the clean
  state: after each method (after the first \<open>k\<close> of them, for every \<open>k\<close>) the calls
  made on \<open>Rwmx\<close> follow its discipline, the thread holds shared access iff its read
  depth is positive and its write depth is 0, and it holds exclusive access iff its
  write depth is positive.
\<close>

theorem nested_sequence_keeps_access_invariant:
  assumes "nested ms" and "max_open 0 ms < 2 ^ 64"
  shows "access_invariant (final_counters (take k ms) clean) (held_after (take k ms))"
proof -
  have "tracked [] clean NoAccess"
    by (simp add: tracked_def clean_def)
  then obtain st' a' where
    "rwmx_apply_all (rwmx_trace (take k ms) clean) NoAccess = Some a'"
    "tracked st' (final_counters (take k ms) clean) a'"
    using tracked_prefix [of "[]" clean NoAccess ms k] assms by (auto simp: nested_def)
  then show ?thesis
    using tracked_access_invariant by (simp add: held_after_def)
qed

theorem nested_sequence_witness:
  "nested [ReadLock, WriteLock, WriteUnlock, ReadUnlock] \<and>
   max_open 0 [ReadLock, WriteLock, WriteUnlock, ReadUnlock] < 2 ^ 64 \<and>
   access_invariant (final_counters [ReadLock, WriteLock, WriteUnlock] clean)
     (held_after [ReadLock, WriteLock, WriteUnlock]) \<and>
   held_after [ReadLock, WriteLock, WriteUnlock] = Some SharedAccess"
proof -
  have a: "nested [ReadLock, WriteLock, WriteUnlock, ReadUnlock]"
    by (simp add: nested_def)
  have b: "max_open 0 [ReadLock, WriteLock, WriteUnlock, ReadUnlock] < 2 ^ 64"
    by simp
  have c: "held_after [ReadLock, WriteLock, WriteUnlock] = Some SharedAccess"
    by (simp add: held_after_def rwmx_trace_def clean_def
        Recursive_ReadLock_def Recursive_WriteLock_def Recursive_WriteUnlock_def)
  show ?thesis
    using nested_sequence_keeps_access_invariant [OF a b, of 3] a b c by (simp add: numeral_3_eq_3)
qed

section \<open>Properties of ReadWriteMutex\<close>

subsection \<open>The invariant holds in every execution\<close>

lemma pc_of_goto [simp]: "pc_of (goto t p s) u = (if u = t then p else pc_of s u)"
  by (simp add: goto_def)

lemma fields_goto [simp]:
  "WriteMutex (goto t p s) = WriteMutex s" "ReadMutex (goto t p s) = ReadMutex s"
  "ReadCounter (goto t p s) = ReadCounter s" "IsCondVarWaiting (goto t p s) = IsCondVarWaiting s"
  by (simp_all add: goto_def)

lemma pc_of_notify_all [simp]:
  "pc_of (notify_all s) u = (if pc_of s u = WL74_blocked then WL76 else pc_of s u)"
  by (simp add: notify_all_def)

lemma fields_notify_all [simp]:
  "WriteMutex (notify_all s) = WriteMutex s" "ReadMutex (notify_all s) = ReadMutex s"
  "ReadCounter (notify_all s) = ReadCounter s" "IsCondVarWaiting (notify_all s) = IsCondVarWaiting s"
  by (simp_all add: notify_all_def)



lemma statement_WriteMutex_owned:
  assumes "statement t (pc_of s t) s = Some s'" and "WriteMutex_owned s"
  shows "WriteMutex_owned s'"
proof -
  have own: "holds_WriteMutex (pc_of s u) \<Longrightarrow> WriteMutex s = Some u" for u
    using assms(2) by (simp add: WriteMutex_owned_def)
  show ?thesis
    unfolding WriteMutex_owned_def
    using assms(1) own own [of t]
    by (cases "pc_of s t") (auto split: if_splits)
qed

lemma statement_WriteMutex_inside:
  assumes step: "statement t (pc_of s t) s = Some s'" and "WriteMutex_inside s"
  shows "WriteMutex_inside s'"
  unfolding WriteMutex_inside_def
proof (intro allI impI)
  fix u
  assume h: "WriteMutex s' = Some u"
  have inside: "WriteMutex s = Some v \<Longrightarrow> holds_WriteMutex (pc_of s v)" for v
    using assms(2) by (simp add: WriteMutex_inside_def)
  show "holds_WriteMutex (pc_of s' u)"
    using step h inside [of u] inside [of t]
    by (cases "pc_of s t") (auto split: if_splits)
qed

lemma statement_ReadMutex_owned:
  assumes "statement t (pc_of s t) s = Some s'" and "ReadMutex_owned s"
  shows "ReadMutex_owned s'"
proof -
  have own: "holds_ReadMutex (pc_of s u) \<Longrightarrow> ReadMutex s = Some u" for u
    using assms(2) by (simp add: ReadMutex_owned_def)
  show ?thesis
    unfolding ReadMutex_owned_def
    using assms(1) own own [of t]
    by (cases "pc_of s t") (auto split: if_splits)
qed

lemma announced_holds: "announced p \<Longrightarrow> holds_WriteMutex p"
  by (cases p) simp_all

lemma waiting_holds: "waiting p \<Longrightarrow> holds_WriteMutex p"
  by (cases p) simp_all

lemma waiting_announced: "waiting p \<Longrightarrow> announced p"
  by (cases p) simp_all

lemma statement_flag_announced:
  assumes step: "statement t (pc_of s t) s = Some s'"
    and "flag_announced s" and "WriteMutex_owned s"
  shows "flag_announced s'"
  unfolding flag_announced_def
proof (intro allI impI)
  fix u
  assume a: "announced (pc_of s' u)"
  have own: "holds_WriteMutex (pc_of s v) \<Longrightarrow> WriteMutex s = Some v" for v
    using assms(3) by (simp add: WriteMutex_owned_def)
  have flag: "announced (pc_of s v) \<Longrightarrow> IsCondVarWaiting s" for v
    using assms(2) unfolding flag_announced_def by blast
  have excl: "announced (pc_of s v) \<Longrightarrow> WriteMutex s = Some v" for v
    using own announced_holds by blast
  show "IsCondVarWaiting s'"
    using step a own [of t] flag [of u] flag [of t] excl [of u]
    by (cases "pc_of s t") (auto split: if_splits)
qed

lemma WriteMutex_unique:
  "WriteMutex_owned s \<Longrightarrow> u \<noteq> t \<Longrightarrow> holds_WriteMutex (pc_of s u) \<Longrightarrow>
   \<not> holds_WriteMutex (pc_of s t)"
  unfolding WriteMutex_owned_def by (metis option.inject)

lemma ReadMutex_unique:
  "ReadMutex_owned s \<Longrightarrow> u \<noteq> t \<Longrightarrow> holds_ReadMutex (pc_of s u) \<Longrightarrow>
   \<not> holds_ReadMutex (pc_of s t)"
  unfolding ReadMutex_owned_def by (metis option.inject)

lemma statement_wakeup_pending:
  assumes step: "statement t (pc_of s t) s = Some s'" and "wakeup_pending s"
    and "WriteMutex_owned s" and "flag_announced s"
  shows "wakeup_pending s'"
  unfolding wakeup_pending_def
proof (intro impI, elim conjE exE)
  fix w
  assume w: "waiting (pc_of s' w)" and z: "ReadCounter s' = 0"
  have flag: "waiting (pc_of s v) \<Longrightarrow> IsCondVarWaiting s" for v
    using assms(4) waiting_announced unfolding flag_announced_def by blast
  have pend: "waiting (pc_of s v) \<Longrightarrow> ReadCounter s = 0 \<Longrightarrow> \<exists>r. notifying (pc_of s r)" for v
    using assms(2) unfolding wakeup_pending_def by blast
  have uniq: "w \<noteq> t \<Longrightarrow> waiting (pc_of s w) \<Longrightarrow> \<not> holds_WriteMutex (pc_of s t)"
    using WriteMutex_unique [OF assms(3)] waiting_holds by blast
  show "\<exists>r. notifying (pc_of s' r)"
  proof (rule ccontr)
    assume "\<nexists>r. notifying (pc_of s' r)"
    then have none: "\<not> notifying (pc_of s' v)" for v by blast
    have before: "waiting (pc_of s w) \<and> ReadCounter s = 0"
      using step w z none [of t] uniq
      by (cases "pc_of s t") (auto split: if_splits)
    then obtain r where r: "notifying (pc_of s r)"
      using pend by blast
    have "notifying (pc_of s' r)"
      using step r before none [of t] flag [of w]
      by (cases "pc_of s t") (auto split: if_splits)
    then show False using none by blast
  qed
qed

lemma statement_invariant:
  assumes "statement t (pc_of s t) s = Some s'" and "rwm_invariant s"
  shows "rwm_invariant s'"
  using assms statement_WriteMutex_owned statement_WriteMutex_inside statement_ReadMutex_owned
    statement_flag_announced statement_wakeup_pending
  unfolding rwm_invariant_def by blast

lemma goto_WriteMutex_owned:
  assumes "WriteMutex_owned s" and "holds_WriteMutex p \<longrightarrow> holds_WriteMutex (pc_of s t)"
  shows "WriteMutex_owned (goto t p s)"
  using assms unfolding WriteMutex_owned_def by auto

lemma goto_WriteMutex_inside:
  assumes "WriteMutex_inside s" and "holds_WriteMutex (pc_of s t) \<longrightarrow> holds_WriteMutex p"
  shows "WriteMutex_inside (goto t p s)"
  using assms unfolding WriteMutex_inside_def by auto

lemma goto_ReadMutex_owned:
  assumes "ReadMutex_owned s" and "holds_ReadMutex p \<longrightarrow> holds_ReadMutex (pc_of s t)"
  shows "ReadMutex_owned (goto t p s)"
  using assms unfolding ReadMutex_owned_def by auto

lemma goto_flag_announced:
  assumes "flag_announced s" and "announced p \<longrightarrow> announced (pc_of s t)"
  shows "flag_announced (goto t p s)"
  using assms unfolding flag_announced_def by auto

lemma goto_wakeup_pending:
  assumes "wakeup_pending s" and "waiting p \<longrightarrow> waiting (pc_of s t)"
    and "\<not> notifying (pc_of s t)"
  shows "wakeup_pending (goto t p s)"
  unfolding wakeup_pending_def
proof (intro impI, elim conjE exE)
  fix w
  assume w: "waiting (pc_of (goto t p s) w)" and z: "ReadCounter (goto t p s) = 0"
  have "waiting (pc_of s w) \<or> waiting (pc_of s t)"
    using w assms(2) by (auto split: if_splits)
  then obtain r where r: "notifying (pc_of s r)"
    using assms(1) z unfolding wakeup_pending_def by auto
  then have "r \<noteq> t" using assms(3) by auto
  then show "\<exists>r. notifying (pc_of (goto t p s) r)"
    using r by (intro exI [of _ r]) simp
qed

lemma fire_invariant:
  assumes "fire e s = Some s'" and "rwm_invariant s"
  shows "rwm_invariant s'"
proof (cases e)
  case (Exec t)
  then show ?thesis using assms statement_invariant by simp
next
  case (Call_ReadLock t)
  then show ?thesis
    using assms unfolding rwm_invariant_def
    by (auto split: if_splits intro!: goto_WriteMutex_owned goto_WriteMutex_inside
        goto_ReadMutex_owned goto_flag_announced goto_wakeup_pending)
next
  case (Call_ReadUnlock t)
  then show ?thesis
    using assms unfolding rwm_invariant_def
    by (auto split: if_splits intro!: goto_WriteMutex_owned goto_WriteMutex_inside
        goto_ReadMutex_owned goto_flag_announced goto_wakeup_pending)
next
  case (Call_WriteLock t)
  then show ?thesis
    using assms unfolding rwm_invariant_def
    by (auto split: if_splits intro!: goto_WriteMutex_owned goto_WriteMutex_inside
        goto_ReadMutex_owned goto_flag_announced goto_wakeup_pending)
next
  case (Call_WriteUnlock t)
  then show ?thesis
    using assms unfolding rwm_invariant_def
    by (auto split: if_splits intro!: goto_WriteMutex_owned goto_WriteMutex_inside
        goto_ReadMutex_owned goto_flag_announced goto_wakeup_pending)
next
  case (Spurious_wakeup t)
  then show ?thesis
    using assms unfolding rwm_invariant_def
    by (auto split: if_splits intro!: goto_WriteMutex_owned goto_WriteMutex_inside
        goto_ReadMutex_owned goto_flag_announced goto_wakeup_pending)
qed

lemma init_invariant: "rwm_invariant init"
  by (simp add: rwm_invariant_def WriteMutex_owned_def WriteMutex_inside_def ReadMutex_owned_def
      flag_announced_def wakeup_pending_def init_def)

lemma run_invariant:
  "run es s = Some s' \<Longrightarrow> rwm_invariant s \<Longrightarrow> rwm_invariant s'"
proof (induction es arbitrary: s)
  case Nil
  then show ?case by simp
next
  case (Cons e es)
  then show ?case
    by (auto split: option.splits dest: fire_invariant)
qed

lemma reachable_invariant: "run es init = Some s \<Longrightarrow> rwm_invariant s"
  using run_invariant init_invariant by blast

lemma notifying_holds: "notifying p \<Longrightarrow> holds_ReadMutex p"
  by (cases p) simp_all

lemma notifying_cases: "notifying p \<Longrightarrow> p = RU52 \<or> p = RU53_load \<or> p = RU53_notify"
  by (cases p) simp_all

lemma waiting_cases: "waiting p \<Longrightarrow> p = WL74_wait \<or> p = WL74_blocked"
  by (cases p) simp_all

lemma notifier_rounds:
  assumes r: "notifying (pc_of s r)" and w: "waiting (pc_of s w)"
    and z: "ReadCounter s = 0" and f: "IsCondVarWaiting s"
  shows "\<exists>s'. run (replicate (steps_to_notify (pc_of s r)) (Exec r)) s = Some s' \<and>
           pc_of s' r = RU53_load \<and>
           pc_of s' w = (if pc_of s w = WL74_blocked then WL76 else pc_of s w) \<and>
           ReadCounter s' = 0 \<and> IsCondVarWaiting s'"
proof -
  have ne: "w \<noteq> r" using r w by (auto dest!: notifying_cases waiting_cases)
  show ?thesis
    using notifying_cases [OF r] w z f ne
    by (auto simp: numeral_3_eq_3 numeral_2_eq_2)
qed

lemma notifier_persists:
  assumes inv: "rwm_invariant s" and r: "notifying (pc_of s r)" and z: "ReadCounter s = 0"
    and f: "IsCondVarWaiting s" and step: "fire e s = Some s'"
  shows "ReadCounter s' = 0 \<and> ReadMutex s' = Some r \<and>
         (IsCondVarWaiting s' \<longrightarrow> notifying (pc_of s' r))"
proof -
  have own: "ReadMutex s = Some r"
    using inv r notifying_holds unfolding rwm_invariant_def ReadMutex_owned_def by blast
  have uR: "t \<noteq> r \<Longrightarrow> \<not> holds_ReadMutex (pc_of s t)" for t
    using inv r notifying_holds ReadMutex_unique [of s r t] unfolding rwm_invariant_def by blast
  have rc: "pc_of s r = RU52 \<or> pc_of s r = RU53_load \<or> pc_of s r = RU53_notify"
    using r by (rule notifying_cases)
  show ?thesis
  proof (cases e)
    case (Exec t)
    show ?thesis
    proof (cases "t = r")
      case True
      then show ?thesis using Exec step rc z f own by auto
    next
      case False
      then show ?thesis
        using Exec step rc z own uR [of t]
        by (cases "pc_of s t") (auto split: if_splits)
    qed
  qed (use step rc z own in \<open>auto split: if_splits\<close>)
qed

lemma in_write_section_holds: "in_write_section p \<Longrightarrow> holds_WriteMutex p"
  by (cases p) simp_all

subsection \<open>The calls of the wrapper are the call events\<close>

lemma call_allowed_iff_discipline:
  assumes "access_at (pc_of s t) = Some a"
  shows "(fire (call_event c t) s \<noteq> None) = (rwmx_apply c a \<noteq> None)"
  using assms by (cases c; cases a; cases "pc_of s t") simp_all

subsection \<open>The executions with a reader and a writer\<close>

lemma run_append:
  "run (xs @ ys) s = (case run xs s of None \<Rightarrow> None | Some s' \<Rightarrow> run ys s')"
  by (induction xs arbitrary: s) (simp_all split: option.splits)

lemma after_reader_in:
  "run reader_in init =
     Some \<lparr>WriteMutex = None, ReadMutex = None, ReadCounter = 1, IsCondVarWaiting = False,
           pc_of = (\<lambda>t. Idle)(0 := Reading)\<rparr>"
  by (simp add: reader_in_def init_def goto_def)

lemma after_writer_sees_reader:
  "run writer_sees_reader init =
     Some \<lparr>WriteMutex = Some 1, ReadMutex = None, ReadCounter = 1, IsCondVarWaiting = True,
           pc_of = (\<lambda>t. Idle)(0 := Reading, 1 := WL74_wait)\<rparr>"
  unfolding writer_sees_reader_def run_append after_reader_in
  by (simp add: goto_def)

lemma after_blocked_writer:
  "run blocked_writer init =
     Some \<lparr>WriteMutex = Some 1, ReadMutex = None, ReadCounter = 1, IsCondVarWaiting = True,
           pc_of = (\<lambda>t. Idle)(0 := Reading, 1 := WL74_blocked)\<rparr>"
  unfolding blocked_writer_def run_append after_writer_sees_reader
  by (simp add: goto_def)

lemma after_notification_race:
  "run notification_race init =
     Some \<lparr>WriteMutex = Some 1, ReadMutex = Some 0, ReadCounter = 0, IsCondVarWaiting = True,
           pc_of = (\<lambda>t. Idle)(0 := RU53_load, 1 := WL74_blocked)\<rparr>"
  unfolding notification_race_def run_append after_writer_sees_reader
  by (simp add: goto_def notify_all_def fun_eq_iff)

lemma after_late_reader:
  "run late_reader init =
     Some \<lparr>WriteMutex = Some 1, ReadMutex = None, ReadCounter = 1, IsCondVarWaiting = True,
           pc_of = (\<lambda>t. Idle)(0 := Reading, 1 := WL74_blocked, 2 := RL39)\<rparr>"
  unfolding late_reader_def run_append after_blocked_writer
  by (simp add: goto_def)

subsection \<open>Mutual exclusion\<close>

lemma of_nat32_eq_0: "c < 2 ^ 31 \<Longrightarrow> (of_nat c :: 32 word) = 0 \<longleftrightarrow> c = 0"
proof -
  assume "c < 2 ^ 31"
  then have "c < 2 ^ 32" by simp
  then have "unat (of_nat c :: 32 word) = c" by (simp add: unat_of_nat)
  then show ?thesis by auto
qed

lemma sint_of_nat32: "c < 2 ^ 31 \<Longrightarrow> sint (of_nat c :: 32 word) = int c"
  by (simp add: signed_of_nat signed_take_bit_int_eq_self)

lemma readers_inside_bound: "card (readers_inside N s) \<le> N"
proof -
  have "readers_inside N s \<subseteq> {..<N}" by (auto simp: readers_inside_def)
  then have "card (readers_inside N s) \<le> card {..<N}" by (intro card_mono) simp_all
  then show ?thesis by simp
qed

lemma finite_readers_inside: "finite (readers_inside N s)"
proof -
  have "readers_inside N s \<subseteq> {..<N}" by (auto simp: readers_inside_def)
  then show ?thesis using finite_subset by blast
qed

lemma statement_readers_inside:
  assumes "statement t (pc_of s t) s = Some s'" and "t < N"
  shows "readers_inside N s' =
           (if counted (pc_of s' t) then insert t (readers_inside N s)
            else readers_inside N s - {t})"
  using assms
  by (cases "pc_of s t") (auto simp: readers_inside_def split: if_splits)

lemma statement_counter:
  assumes "statement t (pc_of s t) s = Some s'"
  shows "(counted (pc_of s' t) \<and> \<not> counted (pc_of s t) \<and> ReadCounter s' = ReadCounter s + 1) \<or>
         (\<not> counted (pc_of s' t) \<and> counted (pc_of s t) \<and> ReadCounter s' = ReadCounter s - 1) \<or>
         (counted (pc_of s' t) = counted (pc_of s t) \<and> ReadCounter s' = ReadCounter s)"
  using assms
  by (cases "pc_of s t") (auto split: if_splits)


lemma statement_count:
  assumes step: "statement t (pc_of s t) s = Some s'" and t: "t < N"
    and k: "ReadCounter s = of_nat (card (readers_inside N s))"
  shows "ReadCounter s' = of_nat (card (readers_inside N s'))"
proof -
  let ?A = "readers_inside N s"
  have mem: "t \<in> ?A \<longleftrightarrow> counted (pc_of s t)"
    using t by (simp add: readers_inside_def)
  have fin: "finite ?A" by (rule finite_readers_inside)
  have A': "readers_inside N s' =
           (if counted (pc_of s' t) then insert t ?A else ?A - {t})"
    using statement_readers_inside [OF step t] .
  consider
      (enter) "counted (pc_of s' t)" "\<not> counted (pc_of s t)" "ReadCounter s' = ReadCounter s + 1"
    | (leave) "\<not> counted (pc_of s' t)" "counted (pc_of s t)" "ReadCounter s' = ReadCounter s - 1"
    | (same) "counted (pc_of s' t) = counted (pc_of s t)" "ReadCounter s' = ReadCounter s"
    using statement_counter [OF step] by blast
  then show ?thesis
  proof cases
    case enter
    then have "card (readers_inside N s') = Suc (card ?A)"
      using A' mem fin by simp
    then show ?thesis using enter(3) k by simp
  next
    case leave
    then have c: "card (readers_inside N s') = card ?A - 1" and "t \<in> ?A"
      using A' mem fin by simp_all
    then have "1 \<le> card ?A"
      using fin by (metis One_nat_def Suc_leI card_gt_0_iff empty_iff)
    then have "(of_nat (card ?A - 1) :: 32 word) = of_nat (card ?A) - 1"
      by (simp add: of_nat_diff)
    then show ?thesis using leave(3) k c by simp
  next
    case same
    then have "readers_inside N s' = ?A"
      using A' mem by auto
    then show ?thesis using same(2) k by simp
  qed
qed

lemma drained_holds: "drained p \<Longrightarrow> holds_WriteMutex p \<or> holds_ReadMutex p"
  by (cases p) simp_all

lemma statement_drained:
  assumes step: "statement t (pc_of s t) s = Some s'" and t: "t < N" and N: "N < 2 ^ 31"
    and inv: "rwm_invariant s" and q: "quiet_invariant N s"
    and u: "drained (pc_of s' u)"
  shows "ReadCounter s' = 0"
proof -
  let ?c = "card (readers_inside N s)"
  have k: "ReadCounter s = of_nat ?c"
    using q by (simp add: quiet_invariant_def)
  have c: "?c < 2 ^ 31"
    using readers_inside_bound [of N s] N by simp
  have k2: "drained (pc_of s v) \<Longrightarrow> ReadCounter s = 0" for v
    using q unfolding quiet_invariant_def by blast
  have neg: "\<not> 0 < sint (ReadCounter s) \<Longrightarrow> ReadCounter s = 0"
    using k c by (simp add: sint_of_nat32)
  have pos: "counted (pc_of s t) \<Longrightarrow> ReadCounter s \<noteq> 0"
  proof -
    assume "counted (pc_of s t)"
    then have "t \<in> readers_inside N s" using t by (simp add: readers_inside_def)
    then have "?c \<noteq> 0" using finite_readers_inside [of N s] by auto
    then show ?thesis using k c by (simp add: of_nat32_eq_0)
  qed
  have uW: "u \<noteq> t \<Longrightarrow> holds_WriteMutex (pc_of s u) \<Longrightarrow> \<not> holds_WriteMutex (pc_of s t)"
    using inv WriteMutex_unique unfolding rwm_invariant_def by blast
  have uR: "u \<noteq> t \<Longrightarrow> holds_ReadMutex (pc_of s u) \<Longrightarrow> \<not> holds_ReadMutex (pc_of s t)"
    using inv ReadMutex_unique unfolding rwm_invariant_def by blast
  have dr: "drained (pc_of s u) \<Longrightarrow> holds_WriteMutex (pc_of s u) \<or> holds_ReadMutex (pc_of s u)"
    by (rule drained_holds)
  show ?thesis
    using step u k2 [of u] k2 [of t] neg pos uW uR dr
    by (cases "pc_of s t") (auto split: if_splits)
qed


lemma statement_idle_outside:
  assumes "statement t (pc_of s t) s = Some s'" and "t < N"
    and "\<forall>v. N \<le> v \<longrightarrow> pc_of s v = Idle" and "N \<le> u"
  shows "pc_of s' u = Idle"
proof -
  have "pc_of s u = Idle" and "u \<noteq> t" using assms by auto
  then show ?thesis
    using assms(1) by (cases "pc_of s t") (auto split: if_splits)
qed

lemma statement_quiet_invariant:
  assumes step: "statement t (pc_of s t) s = Some s'" and t: "t < N" and N: "N < 2 ^ 31"
    and inv: "rwm_invariant s" and q: "quiet_invariant N s"
  shows "quiet_invariant N s'"
  unfolding quiet_invariant_def
proof (intro conjI allI impI)
  show "pc_of s' u = Idle" if "N \<le> u" for u
    using statement_idle_outside [OF step t _ that] q unfolding quiet_invariant_def by blast
  show "ReadCounter s' = of_nat (card (readers_inside N s'))"
    using statement_count [OF step t] q unfolding quiet_invariant_def by blast
  show "ReadCounter s' = 0" if "drained (pc_of s' u)" for u
    using statement_drained [OF step t N inv q that] .
qed

lemma goto_quiet_invariant:
  assumes q: "quiet_invariant N s" and t: "t < N"
    and c: "counted p = counted (pc_of s t)" and d: "drained p \<longrightarrow> drained (pc_of s t)"
  shows "quiet_invariant N (goto t p s)"
proof -
  have "readers_inside N (goto t p s) = readers_inside N s"
    using c by (auto simp: readers_inside_def)
  then show ?thesis
    using q t d unfolding quiet_invariant_def by auto
qed

lemma fire_quiet_invariant:
  assumes "fire e s = Some s'" and "\<not> is_spurious e" and "thread_of e < N" and "N < 2 ^ 31"
    and "rwm_invariant s" and "quiet_invariant N s"
  shows "quiet_invariant N s'"
proof (cases e)
  case (Exec t)
  then show ?thesis using assms statement_quiet_invariant by simp
next
  case (Call_ReadLock t)
  then show ?thesis using assms by (auto split: if_splits intro!: goto_quiet_invariant)
next
  case (Call_ReadUnlock t)
  then show ?thesis using assms by (auto split: if_splits intro!: goto_quiet_invariant)
next
  case (Call_WriteLock t)
  then show ?thesis using assms by (auto split: if_splits intro!: goto_quiet_invariant)
next
  case (Call_WriteUnlock t)
  then show ?thesis using assms by (auto split: if_splits intro!: goto_quiet_invariant)
next
  case (Spurious_wakeup t)
  then show ?thesis using assms by simp
qed

lemma init_quiet_invariant: "quiet_invariant N init"
  by (simp add: quiet_invariant_def readers_inside_def init_def)

lemma run_quiet_invariant:
  "run es s = Some s' \<Longrightarrow> \<forall>e \<in> set es. \<not> is_spurious e \<and> thread_of e < N \<Longrightarrow> N < 2 ^ 31 \<Longrightarrow>
   rwm_invariant s \<Longrightarrow> quiet_invariant N s \<Longrightarrow> quiet_invariant N s'"
proof (induction es arbitrary: s)
  case Nil
  then show ?case by simp
next
  case (Cons e es)
  then obtain s1 where s1: "fire e s = Some s1" "run es s1 = Some s'"
    by (auto split: option.splits)
  have "rwm_invariant s1"
    using fire_invariant [OF s1(1) Cons.prems(4)] .
  moreover have "quiet_invariant N s1"
    using fire_quiet_invariant [OF s1(1)] Cons.prems by simp
  ultimately show ?case
    using Cons.IH [OF s1(2)] Cons.prems by simp
qed

text \<open>
  In an execution without spurious wake-ups, by threads numbered below \<open>N\<close> with
  \<open>N < 2 ^ 31\<close> (\<open>ReadCounter\<close> is a 32-bit \<open>int\<close>): while a thread holds exclusive
  access, no other thread holds exclusive or shared access, and \<open>ReadCounter\<close> is 0.
\<close>

theorem exclusion_without_spurious_wakeup:
  assumes "run es init = Some s" and "\<forall>e \<in> set es. \<not> is_spurious e \<and> thread_of e < N"
    and "N < 2 ^ 31" and "pc_of s w = Writing" and "t \<noteq> w"
  shows "pc_of s t \<noteq> Writing \<and> pc_of s t \<noteq> Reading \<and> ReadCounter s = 0"
proof -
  have inv: "rwm_invariant s"
    using assms(1) by (rule reachable_invariant)
  have q: "quiet_invariant N s"
    using run_quiet_invariant [OF assms(1-3) init_invariant init_quiet_invariant] .
  have "drained (pc_of s w)"
    using assms(4) by simp
  then have z: "ReadCounter s = 0"
    using q unfolding quiet_invariant_def by blast
  have "card (readers_inside N s) < 2 ^ 31"
    using readers_inside_bound [of N s] assms(3) by simp
  then have "card (readers_inside N s) = 0"
    using q z of_nat32_eq_0 unfolding quiet_invariant_def by metis
  then have empty: "readers_inside N s = {}"
    using finite_readers_inside [of N s] by simp
  have nr: "pc_of s t \<noteq> Reading"
  proof
    assume r: "pc_of s t = Reading"
    then have "t < N" using q unfolding quiet_invariant_def by (metis not_le pc.distinct(11))
    then have "t \<in> readers_inside N s" using r by (simp add: readers_inside_def)
    then show False using empty by simp
  qed
  have nw: "pc_of s t \<noteq> Writing"
    using WriteMutex_unique [of s t w] inv assms(4,5) unfolding rwm_invariant_def by auto
  show ?thesis using nr nw z by simp
qed

text \<open>
  C1. Mutual exclusion (no thread holds shared access while another holds exclusive
  access, and \<open>ReadCounter\<close> is 0 while a writer holds the lock) does not hold in
  every execution of the code. The execution \<open>spurious_return\<close> ends with thread 0
  holding shared access (it is between the return of \<open>ReadLock\<close> and its
  \<open>ReadUnlock\<close>, and \<open>ReadCounter\<close> is 1) and thread 1 holding exclusive access
  (\<open>WriteLock\<close> has returned): line 74 calls \<open>Cv.wait\<close> under an \<open>if\<close>, not in a
  loop that tests \<open>ReadCounter\<close> again, so a \<open>wait\<close> that returns with no
  notification lets the writer in.
\<close>

theorem spurious_wakeup_breaks_exclusion:
  "(case run spurious_return init of
      None \<Rightarrow> False
    | Some s \<Rightarrow> pc_of s 0 = Reading \<and> pc_of s 1 = Writing \<and> ReadCounter s = 1)"
  unfolding spurious_return_def run_append after_blocked_writer
  by (simp add: goto_def)

subsection \<open>No lost wake-up\<close>

text \<open>
  \<open>ReadCounter\<close> changes only in a statement of the thread that holds \<open>ReadMutex\<close>
  before and after it: the \<open>fetch_add\<close> of line 41, or the \<open>fetch_sub\<close> of line 50,
  which leaves that thread at line 52. So while a thread stands between line 52 and the
  end of the loop of line 53, the value of the counter is the one its own \<open>fetch_sub\<close>
  left.
\<close>

lemma ReadCounter_changes_under_ReadMutex:
  assumes "run es init = Some s" and "fire e s = Some s'" and "ReadCounter s' \<noteq> ReadCounter s"
  shows "e = Exec (thread_of e) \<and> ReadMutex s = Some (thread_of e) \<and>
         ReadMutex s' = Some (thread_of e) \<and>
         (pc_of s (thread_of e) = RL41 \<and> ReadCounter s' = ReadCounter s + 1 \<or>
          pc_of s (thread_of e) = RU50 \<and> ReadCounter s' = ReadCounter s - 1 \<and>
          pc_of s' (thread_of e) = RU52)"
proof -
  have own: "holds_ReadMutex (pc_of s u) \<Longrightarrow> ReadMutex s = Some u" for u
    using reachable_invariant [OF assms(1)] unfolding rwm_invariant_def ReadMutex_owned_def
    by blast
  show ?thesis
  proof (cases e)
    case (Exec t)
    then show ?thesis
      using assms(2,3) own [of t]
      by (cases "pc_of s t") (auto split: if_splits)
  qed (use assms(2,3) in \<open>auto split: if_splits\<close>)
qed

text \<open>
  C5. In every execution, spurious wake-ups included: when a writer \<open>w\<close> has loaded
  a positive \<open>ReadCounter\<close> at line 74 and is about to block in \<open>Cv.wait\<close> or is
  blocked there, and \<open>ReadCounter\<close> is 0, then the flag \<open>IsCondVarWaiting\<close> is set, and
  the thread \<open>r\<close> that holds \<open>ReadMutex\<close> is inside \<open>ReadUnlock\<close>, past its
  \<open>fetch_sub\<close> and not past the notification loop: it is the reader whose decrement
  made the counter 0. The statements of \<open>r\<close> up to its next \<open>notify_all\<close> (at most
  three) can be executed and leave a writer that was blocked at line 76, woken, and a
  writer that was only about to block where it was, with \<open>r\<close> back at the loop test.
  And whatever event comes next, of any thread, if it leaves \<open>w\<close> not woken then the
  counter is still 0 and \<open>r\<close> still holds \<open>ReadMutex\<close> inside that loop. So the reader
  cannot return from \<open>ReadUnlock\<close> without waking the writer, also when it brought the
  counter to 0 before the writer blocked.
\<close>

theorem no_lost_wakeup:
  assumes "run es init = Some s" and "waiting (pc_of s w)" and "ReadCounter s = 0"
  shows "\<exists>r. ReadMutex s = Some r \<and> notifying (pc_of s r) \<and> IsCondVarWaiting s \<and>
           (\<exists>s'. run (replicate (steps_to_notify (pc_of s r)) (Exec r)) s = Some s' \<and>
              pc_of s' r = RU53_load \<and>
              pc_of s' w = (if pc_of s w = WL74_blocked then WL76 else pc_of s w)) \<and>
           (\<forall>e s'. fire e s = Some s' \<and> waiting (pc_of s' w) \<longrightarrow>
              ReadCounter s' = 0 \<and> ReadMutex s' = Some r \<and> notifying (pc_of s' r))"
proof -
  have inv: "rwm_invariant s"
    using assms(1) by (rule reachable_invariant)
  then obtain r where r: "notifying (pc_of s r)"
    using assms(2,3) unfolding rwm_invariant_def wakeup_pending_def by blast
  have own: "ReadMutex s = Some r"
    using inv r notifying_holds unfolding rwm_invariant_def ReadMutex_owned_def by blast
  have f: "IsCondVarWaiting s"
    using inv assms(2) waiting_announced unfolding rwm_invariant_def flag_announced_def by blast
  have stays: "ReadCounter s' = 0 \<and> ReadMutex s' = Some r \<and> notifying (pc_of s' r)"
    if "fire e s = Some s' \<and> waiting (pc_of s' w)" for e s'
  proof -
    have "rwm_invariant s'"
      using that inv fire_invariant by blast
    then have "IsCondVarWaiting s'"
      using that waiting_announced unfolding rwm_invariant_def flag_announced_def by blast
    then show ?thesis
      using notifier_persists [OF inv r assms(3) f] that by blast
  qed
  show ?thesis
    using r own f stays notifier_rounds [OF r assms(2,3) f]
    by blast
qed

theorem no_lost_wakeup_witness:
  "run notification_race init \<noteq> None \<and>
   waiting (pc_of (the (run notification_race init)) 1) \<and>
   ReadCounter (the (run notification_race init)) = 0 \<and>
   ReadMutex (the (run notification_race init)) = Some 0 \<and>
   pc_of (the (run notification_race init)) 0 = RU53_load \<and>
   IsCondVarWaiting (the (run notification_race init)) \<and>
   (\<exists>s'. run [Exec 0, Exec 0] (the (run notification_race init)) = Some s' \<and>
      pc_of s' 0 = RU53_load \<and> pc_of s' 1 = WL76)"
proof -
  let ?s = "the (run notification_race init)"
  have reach: "run notification_race init = Some ?s"
    by (simp add: after_notification_race)
  have w: "waiting (pc_of ?s 1)" and z: "ReadCounter ?s = 0"
    by (simp_all add: after_notification_race)
  have own: "ReadMutex ?s = Some 0" and at: "pc_of ?s 0 = RU53_load"
    and blocked: "pc_of ?s 1 = WL74_blocked"
    by (simp_all add: after_notification_race)
  obtain r where r: "ReadMutex ?s = Some r" "IsCondVarWaiting ?s"
    and rounds: "\<exists>s'. run (replicate (steps_to_notify (pc_of ?s r)) (Exec r)) ?s = Some s' \<and>
      pc_of s' r = RU53_load \<and>
      pc_of s' 1 = (if pc_of ?s 1 = WL74_blocked then WL76 else pc_of ?s 1)"
    using no_lost_wakeup [OF reach w z] by blast
  have "r = 0" using r(1) own by simp
  then have woken: "\<exists>s'. run [Exec 0, Exec 0] ?s = Some s' \<and> pc_of s' 0 = RU53_load \<and> pc_of s' 1 = WL76"
    using rounds at blocked by (simp add: numeral_2_eq_2)
  have ne: "run notification_race init \<noteq> None"
    by (simp add: after_notification_race)
  show ?thesis
    using ne w z own at r(2) woken by blast
qed

subsection \<open>The steps of ReadLock and the writer gate\<close>

lemma statement_ReadMutex_inside:
  assumes step: "statement t (pc_of s t) s = Some s'" and "ReadMutex_inside s"
  shows "ReadMutex_inside s'"
  unfolding ReadMutex_inside_def
proof (intro allI impI)
  fix u
  assume h: "ReadMutex s' = Some u"
  have inside: "ReadMutex s = Some v \<Longrightarrow> holds_ReadMutex (pc_of s v)" for v
    using assms(2) by (simp add: ReadMutex_inside_def)
  show "holds_ReadMutex (pc_of s' u)"
    using step h inside [of u] inside [of t]
    by (cases "pc_of s t") (auto split: if_splits)
qed

lemma goto_ReadMutex_inside:
  assumes "ReadMutex_inside s" and "holds_ReadMutex (pc_of s t) \<longrightarrow> holds_ReadMutex p"
  shows "ReadMutex_inside (goto t p s)"
  using assms unfolding ReadMutex_inside_def by auto

lemma fire_ReadMutex_inside:
  assumes "fire e s = Some s'" and "ReadMutex_inside s"
  shows "ReadMutex_inside s'"
proof (cases e)
  case (Exec t)
  then show ?thesis using assms statement_ReadMutex_inside by simp
qed (use assms in \<open>auto split: if_splits intro!: goto_ReadMutex_inside\<close>)

lemma run_ReadMutex_inside:
  "run es s = Some s' \<Longrightarrow> ReadMutex_inside s \<Longrightarrow> ReadMutex_inside s'"
proof (induction es arbitrary: s)
  case Nil
  then show ?case by simp
next
  case (Cons e es)
  then show ?case
    by (auto split: option.splits dest: fire_ReadMutex_inside)
qed

lemma reachable_ReadMutex_inside: "run es init = Some s \<Longrightarrow> ReadMutex_inside s"
  using run_ReadMutex_inside [of es init s] by (simp add: ReadMutex_inside_def init_def)

lemma other_thread_leaves_ReadLock_alone:
  assumes "fire e s = Some s'" and "thread_of e \<noteq> t" and "in_ReadLock (pc_of s t)"
  shows "pc_of s' t = pc_of s t"
proof (cases e)
  case (Exec u)
  then have "u \<noteq> t" using assms(2) by simp
  then show ?thesis
    using Exec assms(1,3)
    by (cases "pc_of s u") (auto split: if_splits)
qed (use assms in \<open>auto split: if_splits\<close>)

lemma only_Exec_inside_ReadLock:
  assumes "fire e s = Some s'" and "thread_of e = t" and "in_ReadLock (pc_of s t)"
  shows "e = Exec t"
  using assms by (cases e) (auto split: if_splits)

lemma after_writer_at_gate:
  "run writer_at_gate init =
     Some \<lparr>WriteMutex = Some 0, ReadMutex = None, ReadCounter = 0, IsCondVarWaiting = False,
           pc_of = (\<lambda>t. Idle)(0 := RL40, 1 := WL70)\<rparr>"
  by (simp add: writer_at_gate_def init_def goto_def)

lemma after_overtaking:
  "run overtaking init =
     Some \<lparr>WriteMutex = None, ReadMutex = None, ReadCounter = 2, IsCondVarWaiting = False,
           pc_of = (\<lambda>t. Idle)(0 := Reading, 1 := WL70, 2 := Reading)\<rparr>"
  unfolding overtaking_def run_append after_writer_at_gate
  by (simp add: goto_def fun_upd_twist)

text \<open>
  C6, as stated, fails for a writer that waits to take the gate. In \<open>writer_at_gate\<close>
  writer 1 has called \<open>WriteLock\<close> and is blocked at line 70, \<open>WriteMutex\<close> being held,
  and thread 2 has not called \<open>ReadLock\<close> yet. In \<open>overtaking\<close>, which continues that
  execution, thread 2 calls \<open>ReadLock\<close> after the writer's call and returns from it,
  while the writer is still at line 70: \<open>std::mutex\<close> does not serve the threads
  blocked on it in the order of their calls.
\<close>

theorem blocked_writer_overtaken:
  "(case run writer_at_gate init of
      None \<Rightarrow> False
    | Some s \<Rightarrow> pc_of s 1 = WL70 \<and> fire (Exec 1) s = None \<and> pc_of s 2 = Idle) \<and>
   (case run overtaking init of
      None \<Rightarrow> False
    | Some s \<Rightarrow> pc_of s 1 = WL70 \<and> pc_of s 2 = Reading)"
  by (simp add: after_writer_at_gate after_overtaking)

text \<open>
  C6, amended. In every state, whatever the other threads do, \<open>ReadWriteMutex::ReadLock\<close>
  called by thread \<open>t\<close> runs exactly these steps in this order: the call, possible only
  for a thread that holds nothing, puts it at line 39; line 39 takes \<open>WriteMutex\<close> if
  it is free and blocks otherwise; line 40 takes \<open>ReadMutex\<close> if it is free and blocks
  otherwise; line 41 adds one to \<open>ReadCounter\<close>; line 42 releases \<open>ReadMutex\<close>; line
  43 releases \<open>WriteMutex\<close> and the call has returned. Each step changes nothing else;
  no event of another thread moves \<open>t\<close> while it is inside \<open>ReadLock\<close>, and \<open>t\<close>
  itself can only execute its next statement there. Run from a state where \<open>t\<close> holds
  nothing and both mutexes are free, the call and the five statements leave both
  mutexes free and the counter one higher. In every execution, a thread at lines 40 to
  43 holds \<open>WriteMutex\<close>, a thread at lines 41 and 42 holds \<open>ReadMutex\<close> (the
  increment is made under both), and a thread that has returned from \<open>ReadLock\<close> holds
  neither; a writer holds \<open>WriteMutex\<close> from line 72 of \<open>WriteLock\<close> to line 82 of
  \<open>WriteUnlock\<close>, also while it waits for the readers to leave; and so a thread at
  line 39 of \<open>ReadLock\<close> cannot pass while a writer is in that section.
\<close>

theorem ReadLock_steps_and_gate:
  "fire (Call_ReadLock t) s = (if pc_of s t = Idle then Some (goto t RL39 s) else None) \<and>
   (pc_of s t = RL39 \<longrightarrow>
      fire (Exec t) s =
        (if WriteMutex s = None then Some (goto t RL40 (s\<lparr>WriteMutex := Some t\<rparr>)) else None)) \<and>
   (pc_of s t = RL40 \<longrightarrow>
      fire (Exec t) s =
        (if ReadMutex s = None then Some (goto t RL41 (s\<lparr>ReadMutex := Some t\<rparr>)) else None)) \<and>
   (pc_of s t = RL41 \<longrightarrow>
      fire (Exec t) s = Some (goto t RL42 (s\<lparr>ReadCounter := ReadCounter s + 1\<rparr>))) \<and>
   (pc_of s t = RL42 \<longrightarrow> fire (Exec t) s = Some (goto t RL43 (s\<lparr>ReadMutex := None\<rparr>))) \<and>
   (pc_of s t = RL43 \<longrightarrow> fire (Exec t) s = Some (goto t Reading (s\<lparr>WriteMutex := None\<rparr>))) \<and>
   (in_ReadLock (pc_of s t) \<and> fire e s = Some s' \<and> thread_of e \<noteq> t \<longrightarrow>
      pc_of s' t = pc_of s t) \<and>
   (in_ReadLock (pc_of s t) \<and> fire e s = Some s' \<and> thread_of e = t \<longrightarrow> e = Exec t) \<and>
   (pc_of s t = Idle \<and> WriteMutex s = None \<and> ReadMutex s = None \<longrightarrow>
      run [Call_ReadLock t, Exec t, Exec t, Exec t, Exec t, Exec t] s =
        Some (goto t Reading (s\<lparr>WriteMutex := None, ReadMutex := None,
                                 ReadCounter := ReadCounter s + 1\<rparr>))) \<and>
   (run es init = Some s \<longrightarrow>
      (pc_of s t \<in> {RL40, RL41, RL42, RL43} \<longrightarrow> WriteMutex s = Some t) \<and>
      (pc_of s t \<in> {RL41, RL42} \<longrightarrow> ReadMutex s = Some t) \<and>
      (pc_of s t = Reading \<longrightarrow> WriteMutex s \<noteq> Some t \<and> ReadMutex s \<noteq> Some t) \<and>
      (in_write_section (pc_of s w) \<longrightarrow> WriteMutex s = Some w) \<and>
      (in_write_section (pc_of s w) \<and> pc_of s t = RL39 \<longrightarrow> fire (Exec t) s = None))"
proof (intro conjI impI)
  show "pc_of s' t = pc_of s t"
    if "in_ReadLock (pc_of s t) \<and> fire e s = Some s' \<and> thread_of e \<noteq> t"
    using that other_thread_leaves_ReadLock_alone by blast
  show "e = Exec t"
    if "in_ReadLock (pc_of s t) \<and> fire e s = Some s' \<and> thread_of e = t"
    using that only_Exec_inside_ReadLock by blast
next
  assume reach: "run es init = Some s"
  have inv: "rwm_invariant s"
    using reach by (rule reachable_invariant)
  have ownW: "holds_WriteMutex (pc_of s u) \<Longrightarrow> WriteMutex s = Some u" for u
    using inv unfolding rwm_invariant_def WriteMutex_owned_def by blast
  have ownR: "holds_ReadMutex (pc_of s u) \<Longrightarrow> ReadMutex s = Some u" for u
    using inv unfolding rwm_invariant_def ReadMutex_owned_def by blast
  have insW: "WriteMutex s = Some u \<Longrightarrow> holds_WriteMutex (pc_of s u)" for u
    using inv unfolding rwm_invariant_def WriteMutex_inside_def by blast
  have insR: "ReadMutex s = Some u \<Longrightarrow> holds_ReadMutex (pc_of s u)" for u
    using reachable_ReadMutex_inside [OF reach] unfolding ReadMutex_inside_def by blast
  show "WriteMutex s = Some t" if "pc_of s t \<in> {RL40, RL41, RL42, RL43}"
    using that ownW [of t] by auto
  show "ReadMutex s = Some t" if "pc_of s t \<in> {RL41, RL42}"
    using that ownR [of t] by auto
  show "WriteMutex s \<noteq> Some t" if "pc_of s t = Reading"
    using that insW [of t] by auto
  show "ReadMutex s \<noteq> Some t" if "pc_of s t = Reading"
    using that insR [of t] by auto
  show sec: "WriteMutex s = Some w" if "in_write_section (pc_of s w)"
    using that ownW in_write_section_holds by blast
  show "fire (Exec t) s = None" if "in_write_section (pc_of s w) \<and> pc_of s t = RL39"
    using that sec by simp
qed (simp_all add: goto_def)

theorem ReadLock_steps_witness:
  "pc_of init 0 = Idle \<and> WriteMutex init = None \<and> ReadMutex init = None \<and>
   run [Call_ReadLock 0, Exec 0, Exec 0, Exec 0, Exec 0, Exec 0] init =
     Some \<lparr>WriteMutex = None, ReadMutex = None, ReadCounter = 1, IsCondVarWaiting = False,
           pc_of = (\<lambda>t. Idle)(0 := Reading)\<rparr> \<and>
   run late_reader init \<noteq> None \<and>
   pc_of (the (run late_reader init)) 0 = Reading \<and>
   WriteMutex (the (run late_reader init)) = Some 1 \<and>
   in_write_section (pc_of (the (run late_reader init)) 1) \<and>
   pc_of (the (run late_reader init)) 2 = RL39 \<and>
   in_ReadLock (pc_of (the (run late_reader init)) 2) \<and>
   fire (Exec 2) (the (run late_reader init)) = None \<and>
   run writer_at_gate init \<noteq> None \<and>
   pc_of (the (run writer_at_gate init)) 0 = RL40 \<and>
   WriteMutex (the (run writer_at_gate init)) = Some 0 \<and>
   fire (Exec 0) (the (run writer_at_gate init)) =
     Some \<lparr>WriteMutex = Some 0, ReadMutex = Some 0, ReadCounter = 0, IsCondVarWaiting = False,
           pc_of = (\<lambda>t. Idle)(0 := RL41, 1 := WL70)\<rparr>"
proof -
  let ?s = "the (run late_reader init)"
  let ?g = "the (run writer_at_gate init)"
  have reach: "run late_reader init = Some ?s"
    by (simp add: after_late_reader)
  have reach_g: "run writer_at_gate init = Some ?g"
    by (simp add: after_writer_at_gate)
  have a: "pc_of init 0 = Idle \<and> WriteMutex init = None \<and> ReadMutex init = None"
    by (simp add: init_def)
  have b: "in_write_section (pc_of ?s 1) \<and> pc_of ?s 2 = RL39"
    by (simp add: after_late_reader)
  have c: "pc_of ?s 0 = Reading" "WriteMutex ?s = Some 1" "in_ReadLock (pc_of ?s 2)"
    by (simp_all add: after_late_reader)
  have first: "run [Call_ReadLock 0, Exec 0, Exec 0, Exec 0, Exec 0, Exec 0] init =
     Some \<lparr>WriteMutex = None, ReadMutex = None, ReadCounter = 1, IsCondVarWaiting = False,
           pc_of = (\<lambda>t. Idle)(0 := Reading)\<rparr>"
    using ReadLock_steps_and_gate [of 0 init _ _ "[]" 0] a by (simp add: init_def goto_def)
  have gate: "fire (Exec 2) ?s = None"
    using ReadLock_steps_and_gate [of 2 ?s _ _ late_reader 1] reach b by blast
  have d: "pc_of ?g 0 = RL40" "ReadMutex ?g = None"
    by (simp_all add: after_writer_at_gate)
  have held: "WriteMutex ?g = Some 0"
    using ReadLock_steps_and_gate [of 0 ?g _ _ writer_at_gate 0] reach_g d(1) by blast
  have "fire (Exec 0) ?g = Some (goto 0 RL41 (?g\<lparr>ReadMutex := Some 0\<rparr>))"
    using ReadLock_steps_and_gate [of 0 ?g _ _ "[]" 0] d by simp
  then have step: "fire (Exec 0) ?g =
     Some \<lparr>WriteMutex = Some 0, ReadMutex = Some 0, ReadCounter = 0, IsCondVarWaiting = False,
           pc_of = (\<lambda>t. Idle)(0 := RL41, 1 := WL70)\<rparr>"
    by (simp add: after_writer_at_gate goto_def fun_upd_twist)
  have ne: "run late_reader init \<noteq> None" "run writer_at_gate init \<noteq> None"
    by (simp_all add: after_late_reader after_writer_at_gate)
  show ?thesis
    using a b c first gate d(1) held step ne by blast
qed

end
